theory Spec2Isabelle
  imports Complex_Main
begin

section \<open>Data model\<close>

text \<open>
  The program simulates SI spread over a contact network read from time-stamped crossing
  data. \<open>DynamicNet\<close> keeps, for every ordered pair of nodes, the vector of crossings
  \<open>(crossing time, time the other node was there)\<close>, in a flat array of \<open>m_size * m_size\<close>
  cells, and one infected time per node.

  C++ \<open>double\<close> values are modelled as \<open>real\<close>: comparisons are exact, rounding and NaN are
  not modelled. C++ \<open>int\<close> values are modelled as \<open>int\<close>; where a conversion to an unsigned
  type matters (\<open>vector::at\<close>) the wrap-around is written out.
\<close>

type_synonym crossing = "real \<times> real"

record DynamicNet =
  m_size :: int
  states :: "crossing list list"
  infectedTime :: "real list"

text \<open>
  \<open>OutOfRange\<close> is the exception \<open>std::out_of_range\<close> thrown by \<open>vector::at\<close> and
  \<open>string::compare\<close>; \<open>LengthError\<close> is \<open>std::length_error\<close>; \<open>Undefined\<close> stands for an
  access outside an array or vector through \<open>operator[]\<close>, and for the use of an
  uninitialised pointer, where C++ leaves the behaviour undefined.
\<close>

datatype error = OutOfRange | LengthError | Undefined

text \<open>\<open>v[i]\<close> on a vector or array: no check in C++, so outside the bounds it is \<open>Undefined\<close>.\<close>

definition vec_get :: "'a list \<Rightarrow> int \<Rightarrow> error + 'a" where
  "vec_get xs i = (if 0 \<le> i \<and> i < int (length xs) then Inr (xs ! nat i) else Inl Undefined)"

definition vec_set :: "'a list \<Rightarrow> int \<Rightarrow> 'a \<Rightarrow> error + 'a list" where
  "vec_set xs i v = (if 0 \<le> i \<and> i < int (length xs) then Inr (xs[nat i := v]) else Inl Undefined)"

text \<open>
  \<open>v.at(n)\<close>: the \<open>int\<close> argument is converted to the unsigned \<open>size_t\<close> (64 bits), so a
  negative index becomes a huge one; \<open>at\<close> throws when the converted index is not below
  the size.
\<close>

definition to_size_t :: "int \<Rightarrow> int" where
  "to_size_t n = n mod 2 ^ 64"

definition vec_at :: "'a list \<Rightarrow> int \<Rightarrow> error + 'a" where
  "vec_at xs n = (if to_size_t n < int (length xs) then Inr (xs ! nat (to_size_t n)) else Inl OutOfRange)"

definition vec_at_set :: "'a list \<Rightarrow> int \<Rightarrow> 'a \<Rightarrow> error + 'a list" where
  "vec_at_set xs n v =
     (if to_size_t n < int (length xs) then Inr (xs[nat (to_size_t n) := v]) else Inl OutOfRange)"

section \<open>DynamicNet: the interaction index\<close>

text \<open>\<open>getState (to, from)\<close> returns the cell \<open>states[(m_size * from) + to]\<close>.\<close>

definition getState :: "DynamicNet \<Rightarrow> int \<Rightarrow> int \<Rightarrow> error + crossing list" where
  "getState net to from = vec_get (states net) ((m_size net * from) + to)"

text \<open>The cell of the pair \<open>(a, b)\<close>, as \<open>getState (a, b)\<close> finds it.\<close>

definition cell_of :: "DynamicNet \<Rightarrow> int \<Rightarrow> int \<Rightarrow> crossing list" where
  "cell_of net a b = states net ! nat (m_size net * b + a)"


text \<open>\<open>getState(a, b).push_back(c)\<close>.\<close>

definition push_back :: "DynamicNet \<Rightarrow> int \<Rightarrow> int \<Rightarrow> crossing \<Rightarrow> error + DynamicNet" where
  "push_back net a b c =
     (case getState net a b of
        Inl e \<Rightarrow> Inl e
      | Inr cell \<Rightarrow> Inr (net\<lparr>states := (states net)[nat ((m_size net * b) + a) := cell @ [c]]\<rparr>))"

text \<open>
  The constructor, before it reads the file: \<open>size * size\<close> empty cells and \<open>size\<close>
  infected times \<open>-1.0\<close>. The product \<open>size * size\<close> is computed in \<open>int\<close>, where an
  overflow is undefined; a negative \<open>size\<close> makes \<open>new vector<double>(size, -1.0)\<close> throw.
\<close>

definition new_net :: "int \<Rightarrow> error + DynamicNet" where
  "new_net sz =
     (if 2 ^ 31 \<le> sz * sz then Inl Undefined
      else if sz < 0 then Inl LengthError
      else Inr \<lparr>m_size = sz, states = replicate (nat (sz * sz)) [],
                infectedTime = replicate (nat sz) (- 1)\<rparr>)"

text \<open>\<open>addUpdate\<close> of the direct variant: the crossing goes into both cells.\<close>

definition addUpdate :: "DynamicNet \<Rightarrow> int \<Rightarrow> int \<Rightarrow> real \<Rightarrow> real \<Rightarrow> error + DynamicNet" where
  "addUpdate net from to fromTime toTime =
     (case push_back net from to (fromTime, toTime) of
        Inl e \<Rightarrow> Inl e
      | Inr net1 \<Rightarrow> push_back net1 to from (fromTime, toTime))"

text \<open>\<open>addUpdate\<close> of the indirect variant: one cell only.\<close>

definition addUpdate_indirect :: "DynamicNet \<Rightarrow> int \<Rightarrow> int \<Rightarrow> real \<Rightarrow> real \<Rightarrow> error + DynamicNet" where
  "addUpdate_indirect net from to fromTime toTime = push_back net from to (fromTime, toTime)"

text \<open>
  \<open>checkInteraction\<close>: the loop over the cell returns \<open>1.0\<close> at the first crossing with
  one of its two times in \<open>[t_start, t_end)\<close>, and \<open>-1.0\<close> after the loop.
\<close>

fun checkInteraction_loop :: "crossing list \<Rightarrow> real \<Rightarrow> real \<Rightarrow> real" where
  "checkInteraction_loop [] t_start t_end = - 1"
| "checkInteraction_loop (c # cs) t_start t_end =
     (if (fst c \<ge> t_start \<and> fst c < t_end) \<or> (snd c \<ge> t_start \<and> snd c < t_end) then 1
      else checkInteraction_loop cs t_start t_end)"

definition checkInteraction :: "DynamicNet \<Rightarrow> int \<Rightarrow> int \<Rightarrow> real \<Rightarrow> real \<Rightarrow> error + real" where
  "checkInteraction net from to t_start t_end =
     (case getState net from to of
        Inl e \<Rightarrow> Inl e
      | Inr cell \<Rightarrow>
          if length cell = 0 then Inr (- 1)
          else Inr (checkInteraction_loop cell t_start t_end))"

text \<open>
  \<open>getTimeSinceUpdate\<close> (indirect variant): \<open>l\<close> and \<open>r\<close> start at \<open>0.0\<close>; the loop stops at
  the first crossing after \<open>t\<close> and otherwise remembers the crossing it has just seen.
\<close>

fun getTimeSinceUpdate_loop :: "crossing list \<Rightarrow> real \<Rightarrow> real \<times> real \<Rightarrow> real \<times> real" where
  "getTimeSinceUpdate_loop [] t (l, r) = (l, r)"
| "getTimeSinceUpdate_loop (c # cs) t (l, r) =
     (if fst c > t then (l, r) else getTimeSinceUpdate_loop cs t (fst c, snd c))"

definition getTimeSinceUpdate :: "DynamicNet \<Rightarrow> int \<Rightarrow> int \<Rightarrow> real \<Rightarrow> error + real" where
  "getTimeSinceUpdate net from to t =
     (case getState net from to of
        Inl e \<Rightarrow> Inl e
      | Inr cell \<Rightarrow>
          if length cell = 0 then Inr (- 1)
          else if fst (cell ! 0) > t then Inr (- 1)
          else (case getTimeSinceUpdate_loop cell t (0, 0) of
                  (l, r) \<Rightarrow> if t = l then Inr (t - r) else Inr (- 1)))"

text \<open>Getter and setter for the infected time, both through \<open>infectedTime->at(node)\<close>.\<close>

definition getInfectedTime :: "DynamicNet \<Rightarrow> int \<Rightarrow> error + real" where
  "getInfectedTime net node = vec_at (infectedTime net) node"

definition setInfectedTime :: "DynamicNet \<Rightarrow> int \<Rightarrow> real \<Rightarrow> error + DynamicNet" where
  "setInfectedTime net node time =
     (case vec_at_set (infectedTime net) node time of
        Inl e \<Rightarrow> Inl e
      | Inr tbl \<Rightarrow> Inr (net\<lparr>infectedTime := tbl\<rparr>))"

definition getSize :: "DynamicNet \<Rightarrow> int" where
  "getSize net = m_size net"

text \<open>
  A net as the constructor builds it: \<open>m_size\<close> is a non-negative C \<open>int\<close> whose square
  is an \<open>int\<close> as well (so the index \<open>m_size * from + to\<close> of a pair of nodes does not
  overflow), there are \<open>m_size * m_size\<close> cells and \<open>m_size\<close> infected times.
\<close>

definition wf_net :: "DynamicNet \<Rightarrow> bool" where
  "wf_net net \<longleftrightarrow>
     0 \<le> m_size net \<and> m_size net < 2 ^ 31 \<and> m_size net * m_size net < 2 ^ 31 \<and>
     int (length (states net)) = m_size net * m_size net \<and>
     int (length (infectedTime net)) = m_size net"

definition in_range :: "DynamicNet \<Rightarrow> int \<Rightarrow> bool" where
  "in_range net v \<longleftrightarrow> 0 \<le> v \<and> v < m_size net"


section \<open>Reading the crossing data\<close>

text \<open>
  A line is cut into fields by \<open>getline (ss, s, '\t')\<close> until the stream fails: an empty
  rest yields no further field, so a line that ends in a tab has no empty last field and
  an empty line has no field at all.
\<close>

definition tab :: char where
  "tab = CHR 0x09"

function split_tab :: "string \<Rightarrow> string list" where
  "split_tab s =
     (if s = [] then []
      else (case dropWhile (\<lambda>c. c \<noteq> tab) s of
              [] \<Rightarrow> [s]
            | d # rest \<Rightarrow> takeWhile (\<lambda>c. c \<noteq> tab) s # split_tab rest))"
  by pat_completeness auto
termination
proof (relation "measure length")
  show "wf (measure length)" by simp
next
  fix s :: string and d rest
  assume "dropWhile (\<lambda>c. c \<noteq> tab) s = d # rest"
  then have "length (d # rest) \<le> length s"
    using length_dropWhile_le[of "\<lambda>c. c \<noteq> tab" s] by simp
  then show "(rest, s) \<in> measure length" by simp
qed

declare split_tab.simps [simp del]

text \<open>
  \<open>char_traits<char>::compare\<close> followed by the comparison of the lengths, as
  \<open>basic_string::compare\<close> does: negative, zero or positive. Characters compare by
  their codes.
\<close>

fun traits_compare :: "string \<Rightarrow> string \<Rightarrow> int" where
  "traits_compare [] [] = 0"
| "traits_compare [] (y # ys) = - 1"
| "traits_compare (x # xs) [] = 1"
| "traits_compare (x # xs) (y # ys) =
     (if (of_char x :: nat) < of_char y then - 1
      else if (of_char y :: nat) < of_char x then 1
      else traits_compare xs ys)"

text \<open>
  \<open>s.compare (pos, len, str)\<close> compares the substring of \<open>s\<close> that starts at \<open>pos\<close> and
  has at most \<open>len\<close> characters with \<open>str\<close>; it throws when \<open>pos\<close> is beyond the size.
\<close>

definition compare :: "string \<Rightarrow> nat \<Rightarrow> nat \<Rightarrow> string \<Rightarrow> error + int" where
  "compare s pos len str =
     (if pos > length s then Inl OutOfRange
      else Inr (traits_compare (take len (drop pos s)) str))"

definition none :: string where
  "none = ''NA''"

text \<open>
  The C library's \<open>atoi\<close> and \<open>atof\<close> are parameters of the loaders. A file is the list
  of its lines; a file that cannot be opened gives no line.

  Direct format, one line: \<open>from\<close>, \<open>to\<close> (1-based), \<open>fromTime\<close>, \<open>toTime\<close>.
\<close>

definition direct_line ::
  "(string \<Rightarrow> int) \<Rightarrow> (string \<Rightarrow> real) \<Rightarrow> DynamicNet \<Rightarrow> string \<Rightarrow> error + DynamicNet" where
  "direct_line atoi atof net s =
     (let recd = split_tab s in
      case vec_get recd 0 of Inl e \<Rightarrow> Inl e | Inr r0 \<Rightarrow>
      case vec_get recd 1 of Inl e \<Rightarrow> Inl e | Inr r1 \<Rightarrow>
      case vec_get recd 2 of Inl e \<Rightarrow> Inl e | Inr r2 \<Rightarrow>
      case vec_get recd 3 of Inl e \<Rightarrow> Inl e | Inr r3 \<Rightarrow>
        addUpdate net (atoi r0 - 1) (atoi r1 - 1) (atof r2) (atof r3))"

fun load_direct ::
  "(string \<Rightarrow> int) \<Rightarrow> (string \<Rightarrow> real) \<Rightarrow> DynamicNet \<Rightarrow> string list \<Rightarrow> error + DynamicNet" where
  "load_direct atoi atof net [] = Inr net"
| "load_direct atoi atof net (s # ss) =
     (case direct_line atoi atof net s of
        Inl e \<Rightarrow> Inl e
      | Inr net' \<Rightarrow> load_direct atoi atof net' ss)"

definition DynamicNet_direct ::
  "(string \<Rightarrow> int) \<Rightarrow> (string \<Rightarrow> real) \<Rightarrow> int \<Rightarrow> string list \<Rightarrow> error + DynamicNet" where
  "DynamicNet_direct atoi atof sz file =
     (case new_net sz of Inl e \<Rightarrow> Inl e | Inr net \<Rightarrow> load_direct atoi atof net file)"

text \<open>A sequence of insertions into the direct index.\<close>

fun addUpdates :: "DynamicNet \<Rightarrow> (int \<times> int \<times> real \<times> real) list \<Rightarrow> error + DynamicNet" where
  "addUpdates net [] = Inr net"
| "addUpdates net ((from, to, fromTime, toTime) # us) =
     (case addUpdate net from to fromTime toTime of
        Inl e \<Rightarrow> Inl e
      | Inr net' \<Rightarrow> addUpdates net' us)"

text \<open>
  Indirect format, one line: the loop \<open>for (i = 3; i < m_size+3; ++i)\<close> over the node
  columns. The function returns the \<open>addUpdate\<close> calls of the line in the order the loop
  makes them, \<open>(from, to, fromTime, toTime)\<close> each; \<open>indirect_line\<close> then performs them.
\<close>

fun indirect_line_calls ::
  "(string \<Rightarrow> int) \<Rightarrow> (string \<Rightarrow> real) \<Rightarrow> string list \<Rightarrow> int list \<Rightarrow>
   error + (int \<times> int \<times> real \<times> real) list" where
  "indirect_line_calls atoi atof recd [] = Inr []"
| "indirect_line_calls atoi atof recd (i # is) =
     (case vec_get recd 2 of Inl e \<Rightarrow> Inl e | Inr r2 \<Rightarrow>
      case vec_get recd i of Inl e \<Rightarrow> Inl e | Inr ri \<Rightarrow>
      case compare ri 0 2 none of Inl e \<Rightarrow> Inl e | Inr c \<Rightarrow>
        if c \<noteq> 0 then
          (case vec_get recd 1 of Inl e \<Rightarrow> Inl e | Inr r1 \<Rightarrow>
           case indirect_line_calls atoi atof recd is of Inl e \<Rightarrow> Inl e | Inr us \<Rightarrow>
             Inr ((atoi r2 - 1, i - 3, atof r1, atof ri) # us))
        else indirect_line_calls atoi atof recd is)"

fun addUpdates_indirect ::
  "DynamicNet \<Rightarrow> (int \<times> int \<times> real \<times> real) list \<Rightarrow> error + DynamicNet" where
  "addUpdates_indirect net [] = Inr net"
| "addUpdates_indirect net ((from, to, fromTime, toTime) # us) =
     (case addUpdate_indirect net from to fromTime toTime of
        Inl e \<Rightarrow> Inl e
      | Inr net' \<Rightarrow> addUpdates_indirect net' us)"

definition indirect_line ::
  "(string \<Rightarrow> int) \<Rightarrow> (string \<Rightarrow> real) \<Rightarrow> DynamicNet \<Rightarrow> string \<Rightarrow> error + DynamicNet" where
  "indirect_line atoi atof net s =
     (case indirect_line_calls atoi atof (split_tab s) [3 .. m_size net + 3 - 1] of
        Inl e \<Rightarrow> Inl e
      | Inr us \<Rightarrow> addUpdates_indirect net us)"

fun load_indirect ::
  "(string \<Rightarrow> int) \<Rightarrow> (string \<Rightarrow> real) \<Rightarrow> DynamicNet \<Rightarrow> string list \<Rightarrow> error + DynamicNet" where
  "load_indirect atoi atof net [] = Inr net"
| "load_indirect atoi atof net (s # ss) =
     (case indirect_line atoi atof net s of
        Inl e \<Rightarrow> Inl e
      | Inr net' \<Rightarrow> load_indirect atoi atof net' ss)"

definition DynamicNet_indirect ::
  "(string \<Rightarrow> int) \<Rightarrow> (string \<Rightarrow> real) \<Rightarrow> int \<Rightarrow> string list \<Rightarrow> error + DynamicNet" where
  "DynamicNet_indirect atoi atof sz file =
     (case new_net sz of Inl e \<Rightarrow> Inl e | Inr net \<Rightarrow> load_indirect atoi atof net file)"

text \<open>
  The crossings that a sequence of direct insertions puts into the cell \<open>(a, b)\<close>: those of
  the insertions for \<open>(a, b)\<close> or \<open>(b, a)\<close>, in order; an insertion with \<open>from = to\<close> puts its
  crossing twice.
\<close>

definition records_for :: "int \<Rightarrow> int \<Rightarrow> (int \<times> int \<times> real \<times> real) list \<Rightarrow> crossing list" where
  "records_for a b us =
     concat (map (\<lambda>(f, t, t1, t2).
                    (if f = a \<and> t = b then [(t1, t2)] else []) @
                    (if t = a \<and> f = b then [(t1, t2)] else [])) us)"


section \<open>SI dynamics\<close>

text \<open>\<open>calcWeight\<close>: the decay of the transition probability. No function calls it.\<close>

definition calcWeight :: "real \<Rightarrow> real \<Rightarrow> real" where
  "calcWeight t a = exp (- a * t)"

record SIMap =
  m_probSI :: real
  m_decayRate :: real
  m_ts :: real

text \<open>
  What \<open>fn\<close> changes: the next state vector \<open>dx\<close>, the net (its infected times), and the
  random stream of the system. The stream is a function \<open>rnd\<close> from the number of draws
  made so far to the next number; \<open>sys.rnd ()\<close> returns \<open>rnd (st_rnd st)\<close> and advances the
  position by one.
\<close>

record sim_state =
  st_dx :: "real list"
  st_net :: DynamicNet
  st_rnd :: nat

text \<open>
  The search \<open>for (i=0; i<m_net.getSize(); ++i)\<close> of \<open>fn\<close>, over the list of the indices
  still to visit. The result says whether the loop has left \<open>fn\<close> through its \<open>return\<close>.
\<close>

fun fn_loop ::
  "SIMap \<Rightarrow> (nat \<Rightarrow> real) \<Rightarrow> int \<Rightarrow> real list \<Rightarrow> real \<Rightarrow> int list \<Rightarrow> sim_state \<Rightarrow>
   error + (bool \<times> sim_state)" where
  "fn_loop P rnd vID x tt [] st = Inr (False, st)"
| "fn_loop P rnd vID x tt (i # is) st =
     (if i \<noteq> vID then
        (case vec_get x i of Inl e \<Rightarrow> Inl e | Inr xi \<Rightarrow>
           if xi = 1 then
             (case checkInteraction (st_net st) i vID tt (tt + m_ts P) of
                Inl e \<Rightarrow> Inl e
              | Inr crossing \<Rightarrow>
                  if crossing \<noteq> - 1 then
                    (if rnd (st_rnd st) \<le> m_probSI P then
                       (case vec_set (st_dx st) vID 1 of Inl e \<Rightarrow> Inl e | Inr dx' \<Rightarrow>
                        case setInfectedTime (st_net st) vID tt of Inl e \<Rightarrow> Inl e | Inr net' \<Rightarrow>
                          Inr (True, \<lparr>st_dx = dx', st_net = net', st_rnd = Suc (st_rnd st)\<rparr>))
                     else fn_loop P rnd vID x tt is (st\<lparr>st_rnd := Suc (st_rnd st)\<rparr>))
                  else fn_loop P rnd vID x tt is st)
           else fn_loop P rnd vID x tt is st)
      else fn_loop P rnd vID x tt is st)"

text \<open>\<open>dx[vID] = x[vID]\<close>.\<close>

definition keep_state :: "int \<Rightarrow> real list \<Rightarrow> sim_state \<Rightarrow> error + sim_state" where
  "keep_state vID x st =
     (case vec_get x vID of Inl e \<Rightarrow> Inl e | Inr xv \<Rightarrow>
      case vec_set (st_dx st) vID xv of Inl e \<Rightarrow> Inl e | Inr dx' \<Rightarrow>
        Inr (st\<lparr>st_dx := dx'\<rparr>))"

text \<open>
  \<open>SIMap::fn (v, sys, x, dx, t)\<close>, with the node given by its state index \<open>vID\<close>.
\<close>

definition fn :: "SIMap \<Rightarrow> (nat \<Rightarrow> real) \<Rightarrow> int \<Rightarrow> real list \<Rightarrow> real \<Rightarrow> sim_state \<Rightarrow> error + sim_state" where
  "fn P rnd vID x t st =
     (let tt = m_ts P * t in
      case vec_get x vID of Inl e \<Rightarrow> Inl e | Inr xv \<Rightarrow>
        if xv = 0 then
          (case fn_loop P rnd vID x tt [0 .. getSize (st_net st) - 1] st of
             Inl e \<Rightarrow> Inl e
           | Inr (returned, st') \<Rightarrow> if returned then Inr st' else keep_state vID x st')
        else keep_state vID x st)"

section \<open>The simulation driver\<close>

text \<open>
  Modelled from the spec: the stepping framework (\<open>System\<close>, \<open>SimulateMap::simulate\<close>, the
  observer) is a library outside the sources. One timestep calls \<open>fn\<close> once for every node
  of \<open>order\<close>, each call reading the current state vector \<open>x\<close> and writing its entry of the
  next vector; the order in which the nodes are visited is a parameter.
\<close>

fun sys_step ::
  "SIMap \<Rightarrow> (nat \<Rightarrow> real) \<Rightarrow> real list \<Rightarrow> real \<Rightarrow> int list \<Rightarrow> sim_state \<Rightarrow> error + sim_state" where
  "sys_step P rnd x t [] st = Inr st"
| "sys_step P rnd x t (v # vs) st =
     (case fn P rnd v x t st of
        Inl e \<Rightarrow> Inl e
      | Inr st' \<Rightarrow> sys_step P rnd x t vs st')"

text \<open>
  Modelled from the spec: \<open>simulate\<close> advances the state for the given number of timesteps,
  each from the state vector the timestep before has produced, with a fresh next vector,
  and records the state vector at time 0 and after every timestep. The timestep index is
  the time \<open>t\<close> that \<open>fn\<close> receives.
\<close>

fun simulate ::
  "SIMap \<Rightarrow> (nat \<Rightarrow> real) \<Rightarrow> int list \<Rightarrow> nat \<Rightarrow> nat \<Rightarrow> real list \<Rightarrow> DynamicNet \<Rightarrow> nat \<Rightarrow>
   error + (real list list \<times> DynamicNet \<times> nat)" where
  "simulate P rnd order 0 t x net pos = Inr ([x], net, pos)"
| "simulate P rnd order (Suc n) t x net pos =
     (case sys_step P rnd x (real t) order
             \<lparr>st_dx = replicate (length x) 0, st_net = net, st_rnd = pos\<rparr> of
        Inl e \<Rightarrow> Inl e
      | Inr st \<Rightarrow>
          (case simulate P rnd order n (Suc t) (st_dx st) (st_net st) (st_rnd st) of
             Inl e \<Rightarrow> Inl e
           | Inr (xs, net', pos') \<Rightarrow> Inr (x # xs, net', pos')))"

text \<open>
  \<open>doRuns\<close>. A trial records the state vector and the infected times it starts from, its
  trajectory \<open>xOut\<close>, and the infected times when it ends. The loop copies \<open>initial\<close> for
  every trial; the net and the random stream go from one trial to the next.
\<close>

record trial =
  start_state :: "real list"
  start_infectedTime :: "real list"
  xOut :: "real list list"
  end_infectedTime :: "real list"

fun doRuns_loop ::
  "SIMap \<Rightarrow> (nat \<Rightarrow> real) \<Rightarrow> int list \<Rightarrow> nat \<Rightarrow> real list \<Rightarrow> nat \<Rightarrow> DynamicNet \<Rightarrow> nat \<Rightarrow>
   error + (trial list \<times> DynamicNet \<times> nat)" where
  "doRuns_loop P rnd order simLen initial 0 net pos = Inr ([], net, pos)"
| "doRuns_loop P rnd order simLen initial (Suc runs) net pos =
     (let initialCopy = initial in
      case simulate P rnd order simLen 0 initialCopy net pos of
        Inl e \<Rightarrow> Inl e
      | Inr (traj, net', pos') \<Rightarrow>
          (case doRuns_loop P rnd order simLen initial runs net' pos' of
             Inl e \<Rightarrow> Inl e
           | Inr (trials, net'', pos'') \<Rightarrow>
               Inr (\<lparr>start_state = initialCopy, start_infectedTime = infectedTime net,
                     xOut = traj, end_infectedTime = infectedTime net'\<rparr> # trials,
                    net'', pos'')))"

text \<open>
  The system has one state per node, so \<open>sys.totalStates ()\<close> is the size of the net.
  \<open>prefix\<close> is \<open>None\<close> when \<open>main\<close> has left the pointer uninitialised; \<open>sprintf\<close> then
  reads through it. The rows that \<open>doRuns\<close> writes to the output file, and with them
  \<open>ts\<close> and \<open>outFreq\<close>, are left out.
\<close>

definition doRuns ::
  "SIMap \<Rightarrow> (nat \<Rightarrow> real) \<Rightarrow> int list \<Rightarrow> DynamicNet \<Rightarrow> nat \<Rightarrow> int \<Rightarrow> int \<Rightarrow> nat \<Rightarrow>
   string option \<Rightarrow> error + (trial list \<times> DynamicNet \<times> nat)" where
  "doRuns P rnd order net pos ant runs simLen prefix =
     (case vec_set (replicate (nat (getSize net)) 0) ant 1 of Inl e \<Rightarrow> Inl e | Inr initial \<Rightarrow>
      case setInfectedTime net ant 0 of Inl e \<Rightarrow> Inl e | Inr net1 \<Rightarrow>
      case prefix of None \<Rightarrow> Inl Undefined | Some p \<Rightarrow>
        doRuns_loop P rnd order simLen initial (nat runs) net1 pos)"

section \<open>The main function\<close>

text \<open>
  What \<open>main\<close> does besides returning its exit code: it prints the usage text, prints the
  diagnostic, or calls \<open>doRuns\<close> for an ant.
\<close>

datatype event = Usage | Diagnostic | Ran int "trial list"

fun main_all ::
  "SIMap \<Rightarrow> (nat \<Rightarrow> real) \<Rightarrow> int list \<Rightarrow> int \<Rightarrow> nat \<Rightarrow> string option \<Rightarrow> int list \<Rightarrow>
   DynamicNet \<Rightarrow> nat \<Rightarrow> error + event list" where
  "main_all P rnd order runs simLen prefix [] net pos = Inr []"
| "main_all P rnd order runs simLen prefix (i # is) net pos =
     (case doRuns P rnd order net pos i runs simLen prefix of
        Inl e \<Rightarrow> Inl e
      | Inr (trials, net', pos') \<Rightarrow>
          (case main_all P rnd order runs simLen prefix is net' pos' of
             Inl e \<Rightarrow> Inl e
           | Inr evs \<Rightarrow> Inr (Ran i trials # evs)))"

text \<open>
  \<open>argv\<close> holds the \<open>argc\<close> arguments, the program name first. \<open>decayRate\<close> is never
  assigned (its line is commented out); its value \<open>d\<close> is a parameter. \<open>nodeOrder num\<close>
  is the order in which the framework visits the \<open>num\<close> nodes it was given, and the
  framework runs the whole timesteps of \<open>simLen\<close>. The random stream starts at its first
  number.
\<close>

definition main ::
  "(string \<Rightarrow> int) \<Rightarrow> (string \<Rightarrow> real) \<Rightarrow> (nat \<Rightarrow> real) \<Rightarrow> (int \<Rightarrow> int list) \<Rightarrow> real \<Rightarrow>
   string list \<Rightarrow> string list \<Rightarrow> error + (int \<times> event list)" where
  "main atoi atof rnd nodeOrder d file argv =
     (let argc = int (length argv) in
      if argc < 9 \<or> argc > 11 then Inr (1, [Usage])
      else
        let num = atoi (argv ! 2);
            probSI = atof (argv ! 3);
            ant = atoi (argv ! 4);
            runs = atoi (argv ! 5);
            simLen = atof (argv ! 6);
            ts = atof (argv ! 7);
            pfx = (if argc = 10 then Some (argv ! 9) else None)
        in
        case DynamicNet_direct atoi atof num file of Inl e \<Rightarrow> Inl e | Inr net \<Rightarrow>
          let vDyn = \<lparr>m_probSI = probSI, m_decayRate = d, m_ts = ts\<rparr>;
              steps = nat \<lfloor>simLen\<rfloor>
          in
          if ant = - 1 then
            (case main_all vDyn rnd (nodeOrder num) runs steps pfx [0 .. num - 1] net 0 of
               Inl e \<Rightarrow> Inl e
             | Inr evs \<Rightarrow> Inr (0, evs))
          else if ant > 0 \<and> ant \<le> num then
            (case doRuns vDyn rnd (nodeOrder num) net 0 (ant - 1) runs steps pfx of
               Inl e \<Rightarrow> Inl e
             | Inr (trials, net', pos') \<Rightarrow> Inr (0, [Ran (ant - 1) trials]))
          else Inr (1, [Diagnostic]))"

section \<open>Statements of the rule the dynamics follow\<close>

text \<open>
  The transition rule in the words of its description. The candidates of a susceptible
  node \<open>v\<close> at timestep \<open>t\<close> are the other nodes, in index order, that are infected and
  have a contact with \<open>v\<close> in the window from \<open>t * ts\<close> to \<open>(t + 1) * ts\<close>.
\<close>

definition candidates :: "SIMap \<Rightarrow> DynamicNet \<Rightarrow> real list \<Rightarrow> int \<Rightarrow> real \<Rightarrow> int list" where
  "candidates P net x v t =
     filter (\<lambda>i. i \<noteq> v \<and> x ! nat i = 1 \<and>
                 checkInteraction net i v (t * m_ts P) ((t + 1) * m_ts P) = Inr 1)
            [0 .. m_size net - 1]"

text \<open>
  One draw per candidate: a draw that is at most \<open>p\<close> succeeds and ends the scan, a draw
  that fails leaves the scan to go on with the next candidate and the next number.
\<close>

fun draw_until_success :: "(nat \<Rightarrow> real) \<Rightarrow> real \<Rightarrow> int list \<Rightarrow> nat \<Rightarrow> bool \<times> nat" where
  "draw_until_success rnd p [] pos = (False, pos)"
| "draw_until_success rnd p (c # cs) pos =
     (if rnd pos \<le> p then (True, Suc pos) else draw_until_success rnd p cs (Suc pos))"

definition si_rule :: "SIMap \<Rightarrow> (nat \<Rightarrow> real) \<Rightarrow> int \<Rightarrow> real list \<Rightarrow> real \<Rightarrow> sim_state \<Rightarrow> sim_state" where
  "si_rule P rnd v x t st =
     (if x ! nat v = 0 then
        (case draw_until_success rnd (m_probSI P) (candidates P (st_net st) x v t) (st_rnd st) of
           (True, pos') \<Rightarrow>
              \<lparr>st_dx = (st_dx st)[nat v := 1],
               st_net = (st_net st)\<lparr>infectedTime := (infectedTime (st_net st))[nat v := t * m_ts P]\<rparr>,
               st_rnd = pos'\<rparr>
         | (False, pos') \<Rightarrow>
              \<lparr>st_dx = (st_dx st)[nat v := 0], st_net = st_net st, st_rnd = pos'\<rparr>)
      else st\<lparr>st_dx := (st_dx st)[nat v := x ! nat v]\<rparr>)"

text \<open>The state vector a run starts from: the seed node infected, all others susceptible.\<close>

definition initial_state :: "DynamicNet \<Rightarrow> int \<Rightarrow> real list" where
  "initial_state net ant = (replicate (nat (m_size net)) 0)[nat ant := 1]"

text \<open>The order of a timestep visits every node of the net, and nothing else.\<close>

definition visits_all :: "DynamicNet \<Rightarrow> int list \<Rightarrow> bool" where
  "visits_all net order \<longleftrightarrow> set order = {0 ..< m_size net}"


section \<open>Example inputs\<close>

text \<open>Two nodes with one crossing at time 10, stored in both directions.\<close>

definition ex_net :: DynamicNet where
  "ex_net = \<lparr>m_size = 2, states = [[], [(10, 10)], [(10, 10)], []], infectedTime = [- 1, - 1]\<rparr>"

text \<open>An indirect index whose cell \<open>(0, 1)\<close> is sorted by the first time.\<close>

definition ex_net_indirect :: DynamicNet where
  "ex_net_indirect =
     \<lparr>m_size = 2, states = [[], [], [(10, 4), (20, 15)], []], infectedTime = [- 1, - 1]\<rparr>"


definition ex_atoi :: "string \<Rightarrow> int" where
  "ex_atoi s = (if s = ''1'' then 1 else if s = ''2'' then 2 else 0)"

definition ex_atof :: "string \<Rightarrow> real" where
  "ex_atof s =
     (if s = ''10'' then 10 else if s = ''7'' then 7 else if s = ''2'' then 2
      else if s = ''0.5'' then 1 / 2 else 0)"

text \<open>The empty index for two nodes, and three insertions.\<close>

definition ex_empty :: DynamicNet where
  "ex_empty = \<lparr>m_size = 2, states = [[], [], [], []], infectedTime = [- 1, - 1]\<rparr>"

definition ex_updates :: "(int \<times> int \<times> real \<times> real) list" where
  "ex_updates = [(0, 1, 10, 10), (1, 1, 5, 6), (1, 0, 20, 21)]"



definition ex_P :: SIMap where
  "ex_P = \<lparr>m_probSI = 1 / 2, m_decayRate = 3, m_ts = 10\<rparr>"




text \<open>A random stream whose draws are all 0.2, and one whose draws are all 0.\<close>

definition ex_rnd_low :: "nat \<Rightarrow> real" where
  "ex_rnd_low n = 2 / 10"

definition ex_rnd_zero :: "nat \<Rightarrow> real" where
  "ex_rnd_zero n = 0"


text \<open>Transition probability zero.\<close>

definition ex_P0 :: SIMap where
  "ex_P0 = \<lparr>m_probSI = 0, m_decayRate = 3, m_ts = 10\<rparr>"


text \<open>
  A direct log with one crossing of the nodes 1 and 2 at time 10; command lines with
  eight, nine and ten arguments after the program name; the order in which the nodes
  are visited.
\<close>

definition ex_file :: "string list" where
  "ex_file = [''1'' @ [tab] @ ''2'' @ [tab] @ ''10'' @ [tab] @ ''10'']"

definition ex_argv9 :: "string list" where
  "ex_argv9 = [''dynNetDirect'', ''log.txt'', ''2'', ''0.5'', ''1'', ''1'', ''2'', ''10'', ''1'']"

definition ex_argv10 :: "string list" where
  "ex_argv10 = ex_argv9 @ [''out'']"

definition ex_argv11 :: "string list" where
  "ex_argv11 = ex_argv9 @ [''out'', ''extra'']"

definition ex_order :: "int \<Rightarrow> int list" where
  "ex_order num = [0 .. num - 1]"


section \<open>The index: basic facts\<close>

lemma flat_index_bounds:
  fixes n a b :: int
  assumes "0 \<le> a" "a < n" "0 \<le> b" "b < n"
  shows "0 \<le> n * b + a" and "n * b + a < n * n"
proof -
  show "0 \<le> n * b + a" using assms by simp
  have "b + 1 \<le> n" using assms by simp
  then have "n * (b + 1) \<le> n * n" using assms by (intro mult_left_mono) auto
  then show "n * b + a < n * n" using assms by (simp add: algebra_simps)
qed

lemma getState_in_range:
  assumes "wf_net net" "in_range net a" "in_range net b"
  shows "getState net a b = Inr (states net ! nat (m_size net * b + a))"
  using assms flat_index_bounds[of a "m_size net" b]
  by (simp add: getState_def vec_get_def wf_net_def in_range_def)

lemma checkInteraction_loop_iff:
  "checkInteraction_loop cell s e =
     (if \<exists>c \<in> set cell. (s \<le> fst c \<and> fst c < e) \<or> (s \<le> snd c \<and> snd c < e) then 1 else - 1)"
  by (induction cell) auto

text \<open>
  C2. For a well-formed index and every pair of nodes, \<open>checkInteraction (from, to, s, e)\<close>
  returns \<open>1.0\<close> if and only if some crossing stored in the cell \<open>(from, to)\<close> has its first
  or its second time in the half-open interval \<open>[s, e)\<close>, and \<open>-1.0\<close> otherwise, so also
  for an empty cell.
\<close>

theorem checkInteraction_exists_iff:
  assumes "wf_net net" "in_range net from" "in_range net to"
  shows "\<exists>cell. getState net from to = Inr cell \<and>
           checkInteraction net from to s e =
             Inr (if \<exists>c \<in> set cell. (s \<le> fst c \<and> fst c < e) \<or> (s \<le> snd c \<and> snd c < e)
                  then 1 else - 1) \<and>
           (cell = [] \<longrightarrow> checkInteraction net from to s e = Inr (- 1))"
  using getState_in_range[OF assms]
  by (auto simp: checkInteraction_def checkInteraction_loop_iff)

theorem checkInteraction_exists_iff_witness:
  "wf_net ex_net \<and> in_range ex_net 0 \<and> in_range ex_net 1 \<and>
   checkInteraction ex_net 0 1 10 20 = Inr 1 \<and> checkInteraction ex_net 0 1 0 10 = Inr (- 1)"
proof -
  have h: "wf_net ex_net" "in_range ex_net 0" "in_range ex_net 1"
    by (simp_all add: wf_net_def in_range_def ex_net_def)
  have c: "getState ex_net 0 1 = Inr [(10, 10)]"
    by (simp add: getState_def vec_get_def ex_net_def)
  show ?thesis
    using h c checkInteraction_exists_iff[OF h, of 10 20] checkInteraction_exists_iff[OF h, of 0 10]
    by simp
qed

section \<open>Time since the last crossing\<close>

lemma getTimeSinceUpdate_loop_sorted:
  "sorted (map fst cs) \<Longrightarrow>
   getTimeSinceUpdate_loop cs t (l, r) =
     (if filter (\<lambda>c. fst c \<le> t) cs = [] then (l, r) else last (filter (\<lambda>c. fst c \<le> t) cs))"
proof (induction cs arbitrary: l r)
  case Nil
  then show ?case by simp
next
  case (Cons c cs)
  show ?case
  proof (cases "fst c > t")
    case True
    with Cons.prems have "\<forall>d \<in> set cs. t < fst d" by fastforce
    then have "filter (\<lambda>c. fst c \<le> t) cs = []" by (auto simp: filter_empty_conv)
    with True show ?thesis by simp
  next
    case False
    have "getTimeSinceUpdate_loop cs t (fst c, snd c) =
            (if filter (\<lambda>c. fst c \<le> t) cs = [] then (fst c, snd c)
             else last (filter (\<lambda>c. fst c \<le> t) cs))"
      using Cons.prems by (intro Cons.IH) simp
    with False show ?thesis by simp
  qed
qed

text \<open>
  C3. For a cell sorted ascending by the first time and every query time \<open>t\<close>,
  \<open>getTimeSinceUpdate (from, to, t)\<close> returns \<open>-1.0\<close> when the cell is empty, when \<open>t\<close> is
  before the first time of the first crossing, or when the last crossing whose first time
  is at most \<open>t\<close> has a first time other than \<open>t\<close>; when that crossing has first time \<open>t\<close>
  the result is \<open>t\<close> minus its second time.
\<close>

theorem getTimeSinceUpdate_sorted:
  assumes "getState net from to = Inr cell" "sorted (map fst cell)"
  shows "getTimeSinceUpdate net from to t =
           Inr (if cell = [] \<or> t < fst (hd cell) then - 1
                else (let c = last (filter (\<lambda>c. fst c \<le> t) cell)
                      in if fst c = t then t - snd c else - 1))"
proof (cases cell)
  case Nil
  with assms show ?thesis by (simp add: getTimeSinceUpdate_def)
next
  case (Cons c cs)
  show ?thesis
  proof (cases "t < fst c")
    case True
    with Cons assms show ?thesis by (simp add: getTimeSinceUpdate_def)
  next
    case False
    then have ne: "filter (\<lambda>c. fst c \<le> t) cell \<noteq> []" using Cons by simp
    obtain l r where lr: "last (filter (\<lambda>c. fst c \<le> t) cell) = (l, r)"
      by (cases "last (filter (\<lambda>c. fst c \<le> t) cell)")
    have "getTimeSinceUpdate_loop cell t (0, 0) = (l, r)"
      using getTimeSinceUpdate_loop_sorted[OF assms(2), of t 0 0] ne lr by simp
    with False Cons assms(1) lr show ?thesis
      by (auto simp: getTimeSinceUpdate_def Let_def)
  qed
qed

theorem getTimeSinceUpdate_sorted_witness:
  "getState ex_net_indirect 0 1 = Inr [(10, 4), (20, 15)] \<and>
   sorted (map fst [(10 :: real, 4 :: real), (20, 15)]) \<and>
   getTimeSinceUpdate ex_net_indirect 0 1 20 = Inr 5 \<and>
   getTimeSinceUpdate ex_net_indirect 0 1 15 = Inr (- 1) \<and>
   getTimeSinceUpdate ex_net_indirect 0 1 5 = Inr (- 1)"
proof -
  have c: "getState ex_net_indirect 0 1 = Inr [(10, 4), (20, 15)]"
    by (simp add: getState_def vec_get_def ex_net_indirect_def)
  have s: "sorted (map fst [(10 :: real, 4 :: real), (20, 15)])" by simp
  show ?thesis
    using c s getTimeSinceUpdate_sorted[OF c s, of 20] getTimeSinceUpdate_sorted[OF c s, of 15]
      getTimeSinceUpdate_sorted[OF c s, of 5]
    by simp
qed

section \<open>The infected times\<close>

lemma to_size_t_nonneg: "0 \<le> n \<Longrightarrow> n < 2 ^ 31 \<Longrightarrow> to_size_t n = n"
  by (simp add: to_size_t_def)

lemma to_size_t_neg: "- (2 ^ 31) \<le> n \<Longrightarrow> n < 0 \<Longrightarrow> to_size_t n = n + 2 ^ 64"
proof -
  assume a: "- (2 ^ 31) \<le> n" "n < 0"
  have "(n + 2 ^ 64) mod 2 ^ 64 = n + 2 ^ 64"
    using a by (intro mod_pos_pos_trivial) auto
  then show ?thesis by (simp add: to_size_t_def)
qed

lemma vec_at_in_range:
  assumes "0 \<le> n" "n < int (length xs)" "int (length xs) < 2 ^ 31"
  shows "vec_at xs n = Inr (xs ! nat n)" "vec_at_set xs n v = Inr (xs[nat n := v])"
  using assms to_size_t_nonneg[of n] by (simp_all add: vec_at_def vec_at_set_def)

lemma vec_at_out_of_range:
  assumes "- (2 ^ 31) \<le> n" "n < 2 ^ 31" "n < 0 \<or> int (length xs) \<le> n" "int (length xs) < 2 ^ 31"
  shows "vec_at xs n = Inl OutOfRange" "vec_at_set xs n v = Inl OutOfRange"
proof -
  have "\<not> to_size_t n < int (length xs)"
  proof (cases "n < 0")
    case True
    then show ?thesis using to_size_t_neg[of n] assms by simp
  next
    case False
    then show ?thesis using to_size_t_nonneg[of n] assms by simp
  qed
  then show "vec_at xs n = Inl OutOfRange" "vec_at_set xs n v = Inl OutOfRange"
    by (simp_all add: vec_at_def vec_at_set_def)
qed

text \<open>
  C9. For a node index (a C \<open>int\<close>) outside \<open>[0, N)\<close>, \<open>getInfectedTime\<close> and
  \<open>setInfectedTime\<close> fail with the out-of-range error of \<open>vector::at\<close>, a negative index
  included; for an index inside \<open>[0, N)\<close> they read and write the entry of the table.
\<close>

theorem infectedTime_accessors_bounds:
  assumes "wf_net net" "- (2 ^ 31) \<le> node" "node < 2 ^ 31"
  shows "(in_range net node \<longrightarrow>
            getInfectedTime net node = Inr (infectedTime net ! nat node) \<and>
            setInfectedTime net node time =
              Inr (net\<lparr>infectedTime := (infectedTime net)[nat node := time]\<rparr>)) \<and>
         (\<not> in_range net node \<longrightarrow>
            getInfectedTime net node = Inl OutOfRange \<and>
            setInfectedTime net node time = Inl OutOfRange)"
proof (cases "in_range net node")
  case True
  then show ?thesis
    using assms(1) vec_at_in_range(1)[of node "infectedTime net"]
      vec_at_in_range(2)[of node "infectedTime net" time]
    by (simp add: getInfectedTime_def setInfectedTime_def wf_net_def in_range_def)
next
  case False
  then have "node < 0 \<or> int (length (infectedTime net)) \<le> node"
    using assms(1) by (auto simp: wf_net_def in_range_def)
  then show ?thesis
    using False assms vec_at_out_of_range(1)[of node "infectedTime net"]
      vec_at_out_of_range(2)[of node "infectedTime net" time]
    by (simp add: getInfectedTime_def setInfectedTime_def wf_net_def)
qed

theorem infectedTime_accessors_bounds_witness:
  "wf_net ex_net \<and> - (2 ^ 31) \<le> (1 :: int) \<and> (1 :: int) < 2 ^ 31 \<and>
   - (2 ^ 31) \<le> (- 1 :: int) \<and> (- 1 :: int) < 2 ^ 31 \<and> (2 :: int) < 2 ^ 31 \<and>
   in_range ex_net 1 \<and> \<not> in_range ex_net (- 1) \<and> \<not> in_range ex_net 2 \<and>
   getInfectedTime ex_net 1 = Inr (- 1) \<and>
   setInfectedTime ex_net 1 30 = Inr (ex_net\<lparr>infectedTime := [- 1, 30]\<rparr>) \<and>
   getInfectedTime ex_net (- 1) = Inl OutOfRange \<and>
   setInfectedTime ex_net 2 30 = Inl OutOfRange"
proof -
  have w: "wf_net ex_net" by (simp add: wf_net_def ex_net_def)
  have r: "in_range ex_net 1" "\<not> in_range ex_net (- 1)" "\<not> in_range ex_net 2"
    by (simp_all add: in_range_def ex_net_def)
  have t: "infectedTime ex_net = [- 1, - 1]" by (simp add: ex_net_def)
  show ?thesis
    using w r t infectedTime_accessors_bounds[OF w, of 1 30]
      infectedTime_accessors_bounds[OF w, of "- 1" 30]
      infectedTime_accessors_bounds[OF w, of 2 30]
    by simp
qed

section \<open>The missing-value marker of the indirect format\<close>



lemma begins_with_NA: "take 2 col = ''NA'' \<longleftrightarrow> (\<exists>rest. col = ''NA'' @ rest)"
proof
  assume "take 2 col = ''NA''"
  then have "col = ''NA'' @ drop 2 col" by (metis append_take_drop_id)
  then show "\<exists>rest. col = ''NA'' @ rest" ..
next
  assume "\<exists>rest. col = ''NA'' @ rest"
  then show "take 2 col = ''NA''" by auto
qed





section \<open>Symmetric storage of the direct variant\<close>

lemma flat_index_inj:
  fixes n a b x y :: int
  assumes "0 \<le> a" "a < n" "0 \<le> x" "x < n" "n * y + x = n * b + a"
  shows "x = a \<and> y = b"
proof -
  have "x = (n * y + x) mod n" using assms(3,4) by simp
  also have "\<dots> = (n * b + a) mod n" using assms(5) by simp
  also have "\<dots> = a" using assms(1,2) by simp
  finally have xa: "x = a" .
  with assms(5) have "n * y = n * b" by simp
  moreover have "n \<noteq> 0" using assms by auto
  ultimately have "y = b" by simp
  with xa show ?thesis by simp
qed

lemma getState_cell_of:
  assumes "wf_net net" "in_range net a" "in_range net b"
  shows "getState net a b = Inr (cell_of net a b)"
  using getState_in_range[OF assms] by (simp add: cell_of_def)

lemma push_back_in_range:
  assumes "wf_net net" "in_range net a" "in_range net b"
  shows "\<exists>net'. push_back net a b c = Inr net' \<and> wf_net net' \<and> m_size net' = m_size net \<and>
           infectedTime net' = infectedTime net \<and>
           (\<forall>x y. in_range net x \<and> in_range net y \<longrightarrow>
              cell_of net' x y = cell_of net x y @ (if x = a \<and> y = b then [c] else []))"
proof -
  let ?k = "m_size net * b + a"
  let ?net' = "net\<lparr>states := (states net)[nat ?k := cell_of net a b @ [c]]\<rparr>"
  have k: "0 \<le> ?k" "?k < m_size net * m_size net"
    using flat_index_bounds[of a "m_size net" b] assms by (simp_all add: in_range_def)
  have pb: "push_back net a b c = Inr ?net'"
    using getState_cell_of[OF assms] by (simp add: push_back_def)
  have wf: "wf_net ?net'" using assms(1) by (simp add: wf_net_def)
  have cells: "cell_of ?net' x y = cell_of net x y @ (if x = a \<and> y = b then [c] else [])"
    if "in_range net x" "in_range net y" for x y
  proof (cases "x = a \<and> y = b")
    case True
    have "nat ?k < length (states net)" using k assms(1) by (auto simp: wf_net_def nat_less_iff)
    with True show ?thesis by (simp add: cell_of_def)
  next
    case False
    have k': "0 \<le> m_size net * y + x"
      using flat_index_bounds[of x "m_size net" y] that by (simp add: in_range_def)
    have "m_size net * y + x \<noteq> ?k"
      using flat_index_inj[of a "m_size net" x y b] False that assms by (auto simp: in_range_def)
    then have "nat (m_size net * y + x) \<noteq> nat ?k" using k k' by simp
    with False show ?thesis by (auto simp add: cell_of_def)
  qed
  show ?thesis using pb wf cells by (intro exI[of _ ?net']) simp
qed

lemma addUpdate_in_range:
  assumes "wf_net net" "in_range net from" "in_range net to"
  shows "\<exists>net'. addUpdate net from to t1 t2 = Inr net' \<and> wf_net net' \<and> m_size net' = m_size net \<and>
           infectedTime net' = infectedTime net \<and>
           (\<forall>x y. in_range net x \<and> in_range net y \<longrightarrow>
              cell_of net' x y = cell_of net x y @ records_for x y [(from, to, t1, t2)])"
proof -
  obtain net1 where n1: "push_back net from to (t1, t2) = Inr net1" "wf_net net1"
      "m_size net1 = m_size net" "infectedTime net1 = infectedTime net"
      "\<forall>x y. in_range net x \<and> in_range net y \<longrightarrow>
         cell_of net1 x y = cell_of net x y @ (if x = from \<and> y = to then [(t1, t2)] else [])"
    using push_back_in_range[OF assms, of "(t1, t2)"] by blast
  have r1: "in_range net1 to" "in_range net1 from"
    using assms n1(3) by (simp_all add: in_range_def)
  obtain net2 where n2: "push_back net1 to from (t1, t2) = Inr net2" "wf_net net2"
      "m_size net2 = m_size net1" "infectedTime net2 = infectedTime net1"
      "\<forall>x y. in_range net1 x \<and> in_range net1 y \<longrightarrow>
         cell_of net2 x y = cell_of net1 x y @ (if x = to \<and> y = from then [(t1, t2)] else [])"
    using push_back_in_range[OF n1(2) r1, of "(t1, t2)"] by blast
  have "addUpdate net from to t1 t2 = Inr net2"
    using n1(1) n2(1) by (simp add: addUpdate_def)
  moreover have "cell_of net2 x y = cell_of net x y @ records_for x y [(from, to, t1, t2)]"
    if "in_range net x" "in_range net y" for x y
  proof -
    have r: "in_range net1 x \<and> in_range net1 y" using that n1(3) by (simp add: in_range_def)
    have a: "cell_of net1 x y = cell_of net x y @ (if x = from \<and> y = to then [(t1, t2)] else [])"
      using n1(5) that by blast
    have b: "cell_of net2 x y = cell_of net1 x y @ (if x = to \<and> y = from then [(t1, t2)] else [])"
      using n2(5) r by blast
    show ?thesis unfolding a b
      by (cases "x = from"; cases "y = to"; cases "x = to"; cases "y = from";
          simp add: records_for_def)
  qed
  ultimately have "addUpdate net from to t1 t2 = Inr net2 \<and> wf_net net2 \<and>
      m_size net2 = m_size net \<and> infectedTime net2 = infectedTime net \<and>
      (\<forall>x y. in_range net x \<and> in_range net y \<longrightarrow>
         cell_of net2 x y = cell_of net x y @ records_for x y [(from, to, t1, t2)])"
    using n2(2,3,4) n1(3,4) by simp
  then show ?thesis ..
qed

lemma records_for_Cons:
  "records_for x y (u # us) = records_for x y [u] @ records_for x y us"
  by (simp add: records_for_def)

lemma addUpdates_in_range:
  assumes "wf_net net" "\<forall>(f, t, t1, t2) \<in> set us. in_range net f \<and> in_range net t"
  shows "\<exists>net'. addUpdates net us = Inr net' \<and> wf_net net' \<and> m_size net' = m_size net \<and>
           infectedTime net' = infectedTime net \<and>
           (\<forall>x y. in_range net x \<and> in_range net y \<longrightarrow>
              cell_of net' x y = cell_of net x y @ records_for x y us)"
  using assms
proof (induction us arbitrary: net)
  case Nil
  then show ?case by (simp add: records_for_def)
next
  case (Cons u us)
  obtain f t t1 t2 where u: "u = (f, t, t1, t2)" by (cases u)
  have r: "in_range net f" "in_range net t" using Cons.prems(2) u by auto
  obtain net1 where n1: "addUpdate net f t t1 t2 = Inr net1" "wf_net net1"
      "m_size net1 = m_size net" "infectedTime net1 = infectedTime net"
      "\<forall>x y. in_range net x \<and> in_range net y \<longrightarrow>
         cell_of net1 x y = cell_of net x y @ records_for x y [(f, t, t1, t2)]"
    using addUpdate_in_range[OF Cons.prems(1) r, of t1 t2] by blast
  have "\<forall>(f, t, t1, t2) \<in> set us. in_range net1 f \<and> in_range net1 t"
    using Cons.prems(2) n1(3) by (auto simp: in_range_def)
  from Cons.IH[OF n1(2) this]
  obtain net2 where n2: "addUpdates net1 us = Inr net2" "wf_net net2"
      "m_size net2 = m_size net1" "infectedTime net2 = infectedTime net1"
      "\<forall>x y. in_range net1 x \<and> in_range net1 y \<longrightarrow>
         cell_of net2 x y = cell_of net1 x y @ records_for x y us"
    by blast
  have "addUpdates net (u # us) = Inr net2" using u n1(1) n2(1) by simp
  moreover have "cell_of net2 x y = cell_of net x y @ records_for x y (u # us)"
    if "in_range net x" "in_range net y" for x y
  proof -
    have r: "in_range net1 x \<and> in_range net1 y" using that n1(3) by (simp add: in_range_def)
    have a: "cell_of net1 x y = cell_of net x y @ records_for x y [u]"
      using n1(5) that u by blast
    have b: "cell_of net2 x y = cell_of net1 x y @ records_for x y us"
      using n2(5) r by blast
    show ?thesis unfolding a b records_for_Cons[of x y u us] by simp
  qed
  ultimately have "addUpdates net (u # us) = Inr net2 \<and> wf_net net2 \<and>
      m_size net2 = m_size net \<and> infectedTime net2 = infectedTime net \<and>
      (\<forall>x y. in_range net x \<and> in_range net y \<longrightarrow>
         cell_of net2 x y = cell_of net x y @ records_for x y (u # us))"
    using n2(2,3,4) n1(3,4) by simp
  then show ?case ..
qed

lemma records_for_sym: "records_for a b us = records_for b a us"
proof -
  have "(\<lambda>(f, t, t1 :: real, t2 :: real).
           (if f = a \<and> t = b then [(t1, t2)] else []) @ (if t = a \<and> f = b then [(t1, t2)] else [])) =
        (\<lambda>(f, t, t1, t2).
           (if f = b \<and> t = a then [(t1, t2)] else []) @ (if t = b \<and> f = a then [(t1, t2)] else []))"
  proof (intro ext)
    fix u :: "int \<times> int \<times> real \<times> real"
    obtain f t t1 t2 where u: "u = (f, t, t1, t2)" by (cases u)
    show "(case u of (f, t, t1, t2) \<Rightarrow>
             (if f = a \<and> t = b then [(t1, t2)] else []) @ (if t = a \<and> f = b then [(t1, t2)] else [])) =
          (case u of (f, t, t1, t2) \<Rightarrow>
             (if f = b \<and> t = a then [(t1, t2)] else []) @ (if t = b \<and> f = a then [(t1, t2)] else []))"
      unfolding u by (cases "f = a"; cases "t = b"; cases "t = a"; cases "f = b"; simp)
  qed
  then show ?thesis by (simp add: records_for_def)
qed

lemma int_le_square:
  fixes n :: int
  shows "n \<le> n * n"
proof (cases "1 \<le> n")
  case True
  then have "n * 1 \<le> n * n" by (intro mult_left_mono) auto
  then show ?thesis by simp
next
  case False
  then have "n \<le> 0" by simp
  also have "0 \<le> n * n" by simp
  finally show ?thesis .
qed

lemma new_net_wf:
  assumes "0 \<le> n" "n * n < 2 ^ 31"
  shows "\<exists>net. new_net n = Inr net \<and> wf_net net \<and> m_size net = n \<and>
           infectedTime net = replicate (nat n) (- 1) \<and>
           (\<forall>x y. in_range net x \<and> in_range net y \<longrightarrow> cell_of net x y = [])"
proof -
  let ?net = "\<lparr>m_size = n, states = replicate (nat (n * n)) [], infectedTime = replicate (nat n) (- 1)\<rparr>"
  have "cell_of ?net x y = []" if "in_range ?net x" "in_range ?net y" for x y
  proof -
    have "0 \<le> n * y + x" "n * y + x < n * n"
      using flat_index_bounds[of x n y] that by (simp_all add: in_range_def)
    then have "nat (n * y + x) < nat (n * n)" by simp
    then show ?thesis by (simp add: cell_of_def)
  qed
  moreover have "n < 2 ^ 31" using int_le_square[of n] assms(2) by simp
  ultimately show ?thesis using assms by (intro exI[of _ ?net]) (simp add: new_net_def wf_net_def)
qed

text \<open>
  C5. Starting from the empty index the constructor creates, after any sequence of
  \<open>addUpdate (from, to, t1, t2)\<close> calls on nodes of the net, the cell \<open>(a, b)\<close> and the cell
  \<open>(b, a)\<close> hold the same sequence: the crossings \<open>(t1, t2)\<close> of the calls for \<open>(a, b)\<close> or
  \<open>(b, a)\<close>, in the order of the calls. So every crossing is appended to both cells and
  can be read from both directions.
\<close>

theorem addUpdate_symmetric:
  assumes "new_net n = Inr net0"
    and "\<forall>(f, t, t1, t2) \<in> set us. in_range net0 f \<and> in_range net0 t"
    and "in_range net0 a" "in_range net0 b"
  shows "\<exists>net. addUpdates net0 us = Inr net \<and>
           getState net a b = Inr (records_for a b us) \<and>
           getState net b a = Inr (records_for a b us)"
proof -
  have n: "0 \<le> n" "n * n < 2 ^ 31"
    using assms(1) by (auto simp: new_net_def split: if_splits)
  from new_net_wf[OF n] assms(1)
  have w0: "wf_net net0" and e0: "\<forall>x y. in_range net0 x \<and> in_range net0 y \<longrightarrow> cell_of net0 x y = []"
    by auto
  obtain net where net: "addUpdates net0 us = Inr net" "wf_net net" "m_size net = m_size net0"
      "\<forall>x y. in_range net0 x \<and> in_range net0 y \<longrightarrow>
         cell_of net x y = cell_of net0 x y @ records_for x y us"
    using addUpdates_in_range[OF w0 assms(2)] by blast
  have r: "in_range net a" "in_range net b" using assms(3,4) net(3) by (simp_all add: in_range_def)
  have "getState net a b = Inr (records_for a b us)"
    using getState_cell_of[OF net(2) r] net(4) e0 assms(3,4) by simp
  moreover have "getState net b a = Inr (records_for a b us)"
    using getState_cell_of[OF net(2) r(2) r(1)] net(4) e0 assms(3,4) records_for_sym[of b a us] by simp
  ultimately show ?thesis using net(1) by simp
qed


lemma new_net_2: "new_net 2 = Inr ex_empty"
  by (simp add: new_net_def ex_empty_def eval_nat_numeral)

theorem addUpdate_symmetric_witness:
  "new_net 2 = Inr ex_empty \<and>
   ex_updates = [(0, 1, 10, 10), (1, 1, 5, 6), (1, 0, 20, 21)] \<and>
   in_range ex_empty 0 \<and> in_range ex_empty 1 \<and>
   (\<exists>net. addUpdates ex_empty ex_updates = Inr net \<and>
      getState net 0 1 = Inr [(10, 10), (20, 21)] \<and>
      getState net 1 0 = Inr [(10, 10), (20, 21)])"
proof -
  have r: "\<forall>(f, t, t1, t2) \<in> set ex_updates. in_range ex_empty f \<and> in_range ex_empty t"
    "in_range ex_empty 0" "in_range ex_empty 1"
    by (simp_all add: ex_updates_def in_range_def ex_empty_def)
  have c: "records_for 0 1 ex_updates = [(10, 10), (20, 21)]"
    by (simp add: records_for_def ex_updates_def)
  show ?thesis
    using new_net_2 r(2,3) addUpdate_symmetric[OF new_net_2 r] c by (simp add: ex_updates_def)
qed


section \<open>The transition rule\<close>

lemma checkInteraction_in_range:
  assumes "wf_net net" "in_range net a" "in_range net b"
  shows "checkInteraction net a b s e = Inr 1 \<or> checkInteraction net a b s e = Inr (- 1)"
  using getState_in_range[OF assms]
  by (simp add: checkInteraction_def checkInteraction_loop_iff)

lemma vec_get_in_range:
  "0 \<le> i \<Longrightarrow> i < int (length xs) \<Longrightarrow> vec_get xs i = Inr (xs ! nat i)"
  by (simp add: vec_get_def)

lemma vec_set_in_range:
  "0 \<le> i \<Longrightarrow> i < int (length xs) \<Longrightarrow> vec_set xs i v = Inr (xs[nat i := v])"
  by (simp add: vec_set_def)

lemma setInfectedTime_in_range:
  assumes "wf_net net" "in_range net v"
  shows "setInfectedTime net v time = Inr (net\<lparr>infectedTime := (infectedTime net)[nat v := time]\<rparr>)"
  using assms vec_at_in_range(2)[of v "infectedTime net" time]
  by (simp add: setInfectedTime_def wf_net_def in_range_def)

text \<open>
  The search loop, on any list of node indices: it draws once for every index that is a
  candidate, up to the first success.
\<close>

lemma fn_loop_draws:
  assumes "wf_net (st_net st)" "in_range (st_net st) v"
    and "int (length x) = m_size (st_net st)" "int (length (st_dx st)) = m_size (st_net st)"
    and "\<forall>i \<in> set is. in_range (st_net st) i"
  shows "fn_loop P rnd v x tt is st =
           (case draw_until_success rnd (m_probSI P)
                   (filter (\<lambda>i. i \<noteq> v \<and> x ! nat i = 1 \<and>
                      checkInteraction (st_net st) i v tt (tt + m_ts P) = Inr 1) is) (st_rnd st) of
              (True, pos') \<Rightarrow>
                 Inr (True, \<lparr>st_dx = (st_dx st)[nat v := 1],
                             st_net = (st_net st)\<lparr>infectedTime := (infectedTime (st_net st))[nat v := tt]\<rparr>,
                             st_rnd = pos'\<rparr>)
            | (False, pos') \<Rightarrow> Inr (False, st\<lparr>st_rnd := pos'\<rparr>))"
  using assms
proof (induction "is" arbitrary: st)
  case Nil
  then show ?case by simp
next
  case (Cons i "is")
  let ?net = "st_net st"
  let ?cand = "\<lambda>i. i \<noteq> v \<and> x ! nat i = 1 \<and> checkInteraction ?net i v tt (tt + m_ts P) = Inr 1"
  have i: "in_range ?net i" using Cons.prems(5) by simp
  have xi: "vec_get x i = Inr (x ! nat i)"
    using i Cons.prems(3) by (simp add: vec_get_in_range in_range_def)
  have dxv: "vec_set (st_dx st) v 1 = Inr ((st_dx st)[nat v := 1])"
    using Cons.prems(2,4) by (simp add: vec_set_in_range in_range_def)
  have sit: "setInfectedTime ?net v tt = Inr (?net\<lparr>infectedTime := (infectedTime ?net)[nat v := tt]\<rparr>)"
    using setInfectedTime_in_range[OF Cons.prems(1,2)] .
  have ci: "checkInteraction ?net i v tt (tt + m_ts P) = Inr 1 \<or>
            checkInteraction ?net i v tt (tt + m_ts P) = Inr (- 1)"
    using checkInteraction_in_range[OF Cons.prems(1) i Cons.prems(2)] .
  have ih: "fn_loop P rnd v x tt is st' =
           (case draw_until_success rnd (m_probSI P) (filter ?cand is) (st_rnd st') of
              (True, pos') \<Rightarrow>
                 Inr (True, \<lparr>st_dx = (st_dx st)[nat v := 1],
                             st_net = ?net\<lparr>infectedTime := (infectedTime ?net)[nat v := tt]\<rparr>,
                             st_rnd = pos'\<rparr>)
            | (False, pos') \<Rightarrow> Inr (False, st'\<lparr>st_rnd := pos'\<rparr>))"
    if "st_net st' = ?net" "st_dx st' = st_dx st" for st'
  proof -
    have "wf_net (st_net st')" "in_range (st_net st') v" "int (length x) = m_size (st_net st')"
      "int (length (st_dx st')) = m_size (st_net st')" "\<forall>i \<in> set is. in_range (st_net st') i"
      using Cons.prems that by simp_all
    from Cons.IH[OF this] show ?thesis unfolding that .
  qed
  show ?case
  proof (cases "?cand i")
    case True
    then have flt: "filter ?cand (i # is) = i # filter ?cand is" by simp
    show ?thesis
    proof (cases "rnd (st_rnd st) \<le> m_probSI P")
      case le: True
      have "fn_loop P rnd v x tt (i # is) st =
              Inr (True, \<lparr>st_dx = (st_dx st)[nat v := 1],
                          st_net = ?net\<lparr>infectedTime := (infectedTime ?net)[nat v := tt]\<rparr>,
                          st_rnd = Suc (st_rnd st)\<rparr>)"
        using True le xi dxv sit by simp
      then show ?thesis unfolding flt using le by simp
    next
      case gt: False
      have "fn_loop P rnd v x tt (i # is) st = fn_loop P rnd v x tt is (st\<lparr>st_rnd := Suc (st_rnd st)\<rparr>)"
        using True gt xi by simp
      also have "\<dots> = (case draw_until_success rnd (m_probSI P) (filter ?cand is) (Suc (st_rnd st)) of
              (True, pos') \<Rightarrow>
                 Inr (True, \<lparr>st_dx = (st_dx st)[nat v := 1],
                             st_net = ?net\<lparr>infectedTime := (infectedTime ?net)[nat v := tt]\<rparr>,
                             st_rnd = pos'\<rparr>)
            | (False, pos') \<Rightarrow> Inr (False, st\<lparr>st_rnd := pos'\<rparr>))"
        using ih[of "st\<lparr>st_rnd := Suc (st_rnd st)\<rparr>"] by (simp split: prod.splits bool.splits)
      finally show ?thesis unfolding flt using gt by simp
    qed
  next
    case False
    then have flt: "filter ?cand (i # is) = filter ?cand is" by simp
    have step: "fn_loop P rnd v x tt (i # is) st = fn_loop P rnd v x tt is st"
      using False xi ci by auto
    show ?thesis unfolding flt step using ih[of st] by simp
  qed
qed


lemma fn_computes_rule:
  assumes "wf_net (st_net st)" "in_range (st_net st) v"
    and "int (length x) = m_size (st_net st)" "int (length (st_dx st)) = m_size (st_net st)"
  shows "fn P rnd v x t st = Inr (si_rule P rnd v x t st)"
proof -
  let ?net = "st_net st"
  have xv: "vec_get x v = Inr (x ! nat v)"
    using assms(2,3) by (simp add: vec_get_in_range in_range_def)
  have all: "\<forall>i \<in> set [0 .. getSize ?net - 1]. in_range ?net i"
    by (simp add: in_range_def getSize_def)
  have w: "m_ts P * t + m_ts P = (t + 1) * m_ts P"
    by (simp add: algebra_simps)
  have w': "m_ts P * t = t * m_ts P"
    by simp
  show ?thesis
  proof (cases "x ! nat v = 0")
    case False
    then show ?thesis
      using xv assms(2,4)
      by (simp add: fn_def si_rule_def keep_state_def vec_set_in_range in_range_def)
  next
    case True
    obtain b pos' where d: "draw_until_success rnd (m_probSI P) (candidates P ?net x v t) (st_rnd st) = (b, pos')"
      by (cases "draw_until_success rnd (m_probSI P) (candidates P ?net x v t) (st_rnd st)")
    have loop: "fn_loop P rnd v x (m_ts P * t) [0 .. getSize ?net - 1] st =
           (case (b, pos') of
              (True, pos') \<Rightarrow>
                 Inr (True, \<lparr>st_dx = (st_dx st)[nat v := 1],
                             st_net = ?net\<lparr>infectedTime := (infectedTime ?net)[nat v := m_ts P * t]\<rparr>,
                             st_rnd = pos'\<rparr>)
            | (False, pos') \<Rightarrow> Inr (False, st\<lparr>st_rnd := pos'\<rparr>))"
      using fn_loop_draws[OF assms all, of P rnd "m_ts P * t"] d
      unfolding candidates_def getSize_def w w'[symmetric] by simp
    show ?thesis
    proof (cases b)
      case True
      with loop d \<open>x ! nat v = 0\<close> xv show ?thesis
        by (simp add: fn_def si_rule_def w')
    next
      case False
      with loop d \<open>x ! nat v = 0\<close> xv assms(2,4) show ?thesis
        by (simp add: fn_def si_rule_def keep_state_def vec_set_in_range in_range_def)
    qed
  qed
qed





section \<open>One timestep and one run\<close>

lemma draw_until_success_all_fail:
  "\<forall>n. p < rnd n \<Longrightarrow> draw_until_success rnd p cs pos = (False, pos + length cs)"
  by (induction cs arbitrary: pos) (simp_all add: not_le[symmetric])

text \<open>What a call of \<open>fn\<close> for the node \<open>v\<close> leaves behind.\<close>

lemma fn_result:
  assumes "wf_net (st_net st)" "in_range (st_net st) v"
    and "int (length x) = m_size (st_net st)" "int (length (st_dx st)) = m_size (st_net st)"
  shows "\<exists>st'. fn P rnd v x t st = Inr st' \<and> wf_net (st_net st') \<and>
           m_size (st_net st') = m_size (st_net st) \<and> states (st_net st') = states (st_net st) \<and>
           length (st_dx st') = length (st_dx st) \<and>
           (\<forall>w. 0 \<le> w \<and> w \<noteq> v \<longrightarrow> st_dx st' ! nat w = st_dx st ! nat w) \<and>
           (st_dx st' ! nat v = x ! nat v \<or> (x ! nat v = 0 \<and> st_dx st' ! nat v = 1)) \<and>
           ((\<forall>n. m_probSI P < rnd n) \<longrightarrow>
              st_dx st' ! nat v = x ! nat v \<and> st_net st' = st_net st)"
proof -
  let ?st' = "si_rule P rnd v x t st"
  have f: "fn P rnd v x t st = Inr ?st'" by (rule fn_computes_rule[OF assms])
  have v: "0 \<le> v" "nat v < length (st_dx st)"
    using assms(2,4) by (auto simp: in_range_def)
  have other: "nat w \<noteq> nat v" if "0 \<le> w" "w \<noteq> v" for w using that v(1) by simp
  obtain b pos' where d:
    "draw_until_success rnd (m_probSI P) (candidates P (st_net st) x v t) (st_rnd st) = (b, pos')"
    by (cases "draw_until_success rnd (m_probSI P) (candidates P (st_net st) x v t) (st_rnd st)")
  have 1: "wf_net (st_net ?st')" "m_size (st_net ?st') = m_size (st_net st)"
    "states (st_net ?st') = states (st_net st)" "length (st_dx ?st') = length (st_dx st)"
    using assms(1) d by (cases b; simp add: si_rule_def wf_net_def)+
  have 2: "st_dx ?st' ! nat w = st_dx st ! nat w" if "0 \<le> w" "w \<noteq> v" for w
    using other[OF that] d by (cases b; simp add: si_rule_def)
  have 3: "st_dx ?st' ! nat v = x ! nat v \<or> (x ! nat v = 0 \<and> st_dx ?st' ! nat v = 1)"
    using v d by (cases b; simp add: si_rule_def)
  have 4: "st_dx ?st' ! nat v = x ! nat v \<and> st_net ?st' = st_net st" if "\<forall>n. m_probSI P < rnd n"
    using v draw_until_success_all_fail[OF that] by (simp add: si_rule_def)
  show ?thesis using f 1 2 3 4 by blast
qed


text \<open>One timestep: \<open>fn\<close> for every node of \<open>order\<close>.\<close>

lemma sys_step_result:
  assumes "wf_net (st_net st)" "\<forall>v \<in> set order. in_range (st_net st) v"
    and "int (length x) = m_size (st_net st)" "int (length (st_dx st)) = m_size (st_net st)"
  shows "\<exists>st'. sys_step P rnd x t order st = Inr st' \<and> wf_net (st_net st') \<and>
           m_size (st_net st') = m_size (st_net st) \<and> states (st_net st') = states (st_net st) \<and>
           length (st_dx st') = length (st_dx st) \<and>
           (\<forall>w. 0 \<le> w \<and> w \<notin> set order \<longrightarrow> st_dx st' ! nat w = st_dx st ! nat w) \<and>
           (\<forall>w \<in> set order. st_dx st' ! nat w = x ! nat w \<or>
                               (x ! nat w = 0 \<and> st_dx st' ! nat w = 1)) \<and>
           ((\<forall>n. m_probSI P < rnd n) \<longrightarrow>
              (\<forall>w \<in> set order. st_dx st' ! nat w = x ! nat w) \<and> st_net st' = st_net st)"
  using assms
proof (induction order arbitrary: st)
  case Nil
  then show ?case by simp
next
  case (Cons v vs)
  have v: "in_range (st_net st) v" using Cons.prems(2) by simp
  obtain st1 where s1: "fn P rnd v x t st = Inr st1" "wf_net (st_net st1)"
      "m_size (st_net st1) = m_size (st_net st)" "states (st_net st1) = states (st_net st)"
      "length (st_dx st1) = length (st_dx st)"
      "\<forall>w. 0 \<le> w \<and> w \<noteq> v \<longrightarrow> st_dx st1 ! nat w = st_dx st ! nat w"
      "st_dx st1 ! nat v = x ! nat v \<or> (x ! nat v = 0 \<and> st_dx st1 ! nat v = 1)"
      "(\<forall>n. m_probSI P < rnd n) \<longrightarrow> st_dx st1 ! nat v = x ! nat v \<and> st_net st1 = st_net st"
    using fn_result[OF Cons.prems(1) v Cons.prems(3,4), of P rnd t] by blast
  have p1: "\<forall>v \<in> set vs. in_range (st_net st1) v" "int (length x) = m_size (st_net st1)"
    "int (length (st_dx st1)) = m_size (st_net st1)"
    using Cons.prems s1(3,5) by (simp_all add: in_range_def)
  obtain st2 where s2: "sys_step P rnd x t vs st1 = Inr st2" "wf_net (st_net st2)"
      "m_size (st_net st2) = m_size (st_net st1)" "states (st_net st2) = states (st_net st1)"
      "length (st_dx st2) = length (st_dx st1)"
      "\<forall>w. 0 \<le> w \<and> w \<notin> set vs \<longrightarrow> st_dx st2 ! nat w = st_dx st1 ! nat w"
      "\<forall>w \<in> set vs. st_dx st2 ! nat w = x ! nat w \<or> (x ! nat w = 0 \<and> st_dx st2 ! nat w = 1)"
      "(\<forall>n. m_probSI P < rnd n) \<longrightarrow>
         (\<forall>w \<in> set vs. st_dx st2 ! nat w = x ! nat w) \<and> st_net st2 = st_net st1"
    using Cons.IH[OF s1(2) p1] by blast
  have v0: "0 \<le> v" using v by (simp add: in_range_def)
  have a: "sys_step P rnd x t (v # vs) st = Inr st2" using s1(1) s2(1) by simp
  have b: "st_dx st2 ! nat w = st_dx st ! nat w" if "0 \<le> w" "w \<notin> set (v # vs)" for w
    using that s1(6) s2(6) by simp
  have c: "st_dx st2 ! nat w = x ! nat w \<or> (x ! nat w = 0 \<and> st_dx st2 ! nat w = 1)"
    if "w \<in> set (v # vs)" for w
  proof (cases "w \<in> set vs")
    case True
    then show ?thesis using s2(7) by blast
  next
    case False
    then have "w = v" using that by simp
    then show ?thesis using False s2(6) s1(7) v0 by simp
  qed
  have d: "(\<forall>w \<in> set (v # vs). st_dx st2 ! nat w = x ! nat w) \<and> st_net st2 = st_net st"
    if h: "\<forall>n. m_probSI P < rnd n"
  proof -
    have "st_dx st2 ! nat w = x ! nat w" if "w \<in> set (v # vs)" for w
    proof (cases "w \<in> set vs")
      case True
      then show ?thesis using s2(8) h by blast
    next
      case False
      then have "w = v" using that by simp
      then show ?thesis using False s2(6) s1(8) h v0 by simp
    qed
    moreover have "st_net st2 = st_net st" using s1(8) s2(8) h by simp
    ultimately show ?thesis by blast
  qed
  show ?case
  proof (intro exI[of _ st2] conjI)
    show "sys_step P rnd x t (v # vs) st = Inr st2" by (rule a)
    show "wf_net (st_net st2)" by (rule s2(2))
    show "m_size (st_net st2) = m_size (st_net st)" using s1(3) s2(3) by simp
    show "states (st_net st2) = states (st_net st)" using s1(4) s2(4) by simp
    show "length (st_dx st2) = length (st_dx st)" using s1(5) s2(5) by simp
    show "\<forall>w. 0 \<le> w \<and> w \<notin> set (v # vs) \<longrightarrow> st_dx st2 ! nat w = st_dx st ! nat w"
      using b by blast
    show "\<forall>w \<in> set (v # vs). st_dx st2 ! nat w = x ! nat w \<or>
                               (x ! nat w = 0 \<and> st_dx st2 ! nat w = 1)"
      using c by blast
    show "(\<forall>n. m_probSI P < rnd n) \<longrightarrow>
              (\<forall>w \<in> set (v # vs). st_dx st2 ! nat w = x ! nat w) \<and> st_net st2 = st_net st"
      using d by blast
  qed
qed

text \<open>
  A timestep whose order visits every node of the net: an infected node stays infected,
  and the state vector is unchanged when every draw is above \<open>probSI\<close>.
\<close>



lemma timestep_result:
  assumes "wf_net net" "visits_all net order" "int (length x) = m_size net"
  shows "\<exists>st'. sys_step P rnd x t order \<lparr>st_dx = replicate (length x) 0, st_net = net, st_rnd = pos\<rparr>
                  = Inr st' \<and>
           wf_net (st_net st') \<and> m_size (st_net st') = m_size net \<and>
           states (st_net st') = states net \<and> length (st_dx st') = length x \<and>
           (\<forall>v. in_range net v \<and> x ! nat v = 1 \<longrightarrow> st_dx st' ! nat v = 1) \<and>
           ((\<forall>n. m_probSI P < rnd n) \<longrightarrow> st_dx st' = x \<and> st_net st' = net)"
proof -
  let ?st = "\<lparr>st_dx = replicate (length x) 0, st_net = net, st_rnd = pos\<rparr>"
  have o: "\<forall>v \<in> set order. in_range (st_net ?st) v"
    using assms(2) by (simp add: visits_all_def in_range_def)
  have p: "wf_net (st_net ?st)" "int (length x) = m_size (st_net ?st)"
    "int (length (st_dx ?st)) = m_size (st_net ?st)"
    using assms by simp_all
  obtain st' where s: "sys_step P rnd x t order ?st = Inr st'" "wf_net (st_net st')"
      "m_size (st_net st') = m_size net" "states (st_net st') = states net"
      "length (st_dx st') = length x"
      "\<forall>w \<in> set order. st_dx st' ! nat w = x ! nat w \<or> (x ! nat w = 0 \<and> st_dx st' ! nat w = 1)"
      "(\<forall>n. m_probSI P < rnd n) \<longrightarrow>
         (\<forall>w \<in> set order. st_dx st' ! nat w = x ! nat w) \<and> st_net st' = net"
    using sys_step_result[OF p(1) o p(2,3), of P rnd t] by auto
  have mono: "st_dx st' ! nat v = 1" if "in_range net v" "x ! nat v = 1" for v
  proof -
    have "v \<in> set order" using that(1) assms(2) by (simp add: visits_all_def in_range_def)
    then show ?thesis using s(6) that(2) by auto
  qed
  have same: "st_dx st' = x \<and> st_net st' = net" if h: "\<forall>n. m_probSI P < rnd n"
  proof -
    have "st_dx st' ! i = x ! i" if "i < length x" for i
    proof -
      have "int i \<in> set order" using that assms(2,3) by (simp add: visits_all_def)
      then have "st_dx st' ! nat (int i) = x ! nat (int i)" using s(7) h by blast
      then show ?thesis by simp
    qed
    then have "st_dx st' = x" using s(5) by (simp add: nth_equalityI)
    then show ?thesis using s(7) h by simp
  qed
  show ?thesis
  proof (intro exI[of _ st'] conjI)
    show "sys_step P rnd x t order ?st = Inr st'" by (rule s(1))
    show "wf_net (st_net st')" by (rule s(2))
    show "m_size (st_net st') = m_size net" by (rule s(3))
    show "states (st_net st') = states net" by (rule s(4))
    show "length (st_dx st') = length x" by (rule s(5))
    show "\<forall>v. in_range net v \<and> x ! nat v = 1 \<longrightarrow> st_dx st' ! nat v = 1"
      using mono by blast
    show "(\<forall>n. m_probSI P < rnd n) \<longrightarrow> st_dx st' = x \<and> st_net st' = net"
      using same by blast
  qed
qed

text \<open>A run of \<open>n\<close> timesteps.\<close>

lemma simulate_result:
  assumes "wf_net net" "visits_all net order" "int (length x) = m_size net"
  shows "\<exists>traj net' pos'. simulate P rnd order n t x net pos = Inr (traj, net', pos') \<and>
           wf_net net' \<and> m_size net' = m_size net \<and> states net' = states net \<and>
           length traj = Suc n \<and> traj ! 0 = x \<and>
           (\<forall>j k v. j \<le> k \<and> k \<le> n \<and> in_range net v \<and> traj ! j ! nat v = 1 \<longrightarrow>
                      traj ! k ! nat v = 1) \<and>
           ((\<forall>n. m_probSI P < rnd n) \<longrightarrow> traj = replicate (Suc n) x \<and> net' = net)"
  using assms
proof (induction n arbitrary: t x net pos)
  case 0
  then show ?case by simp
next
  case (Suc n)
  let ?st = "\<lparr>st_dx = replicate (length x) 0, st_net = net, st_rnd = pos\<rparr>"
  obtain st1 where s1: "sys_step P rnd x (real t) order ?st = Inr st1" "wf_net (st_net st1)"
      "m_size (st_net st1) = m_size net" "states (st_net st1) = states net"
      "length (st_dx st1) = length x"
      "\<forall>v. in_range net v \<and> x ! nat v = 1 \<longrightarrow> st_dx st1 ! nat v = 1"
      "(\<forall>n. m_probSI P < rnd n) \<longrightarrow> st_dx st1 = x \<and> st_net st1 = net"
    using timestep_result[OF Suc.prems, of P rnd "real t" pos] by blast
  have p1: "visits_all (st_net st1) order" "int (length (st_dx st1)) = m_size (st_net st1)"
    using Suc.prems s1(3,5) by (simp_all add: visits_all_def)
  obtain xs net' pos' where s2:
      "simulate P rnd order n (Suc t) (st_dx st1) (st_net st1) (st_rnd st1) = Inr (xs, net', pos')"
      "wf_net net'" "m_size net' = m_size (st_net st1)" "states net' = states (st_net st1)"
      "length xs = Suc n" "xs ! 0 = st_dx st1"
      "\<forall>j k v. j \<le> k \<and> k \<le> n \<and> in_range (st_net st1) v \<and> xs ! j ! nat v = 1 \<longrightarrow>
                 xs ! k ! nat v = 1"
      "(\<forall>n. m_probSI P < rnd n) \<longrightarrow> xs = replicate (Suc n) (st_dx st1) \<and> net' = st_net st1"
    using Suc.IH[OF s1(2) p1, of "Suc t" "st_rnd st1"] by blast
  have a: "simulate P rnd order (Suc n) t x net pos = Inr (x # xs, net', pos')"
    using s1(1) s2(1) by simp
  have mono: "(x # xs) ! k ! nat v = 1"
    if "j \<le> k" "k \<le> Suc n" "in_range net v" "(x # xs) ! j ! nat v = 1" for j k v
  proof -
    have r: "in_range (st_net st1) v" using that(3) s1(3) by (simp add: in_range_def)
    show ?thesis
    proof (cases k)
      case 0
      then show ?thesis using that by simp
    next
      case (Suc k')
      show ?thesis
      proof (cases j)
        case 0
        then have "x ! nat v = 1" using that(4) by simp
        then have "xs ! 0 ! nat v = 1" using s1(6) s2(6) that(3) by simp
        moreover have "0 \<le> k'" "k' \<le> n" using that(2) Suc by simp_all
        ultimately have "xs ! k' ! nat v = 1" using s2(7) r by blast
        then show ?thesis using Suc by simp
      next
        case (Suc j')
        then have "xs ! j' ! nat v = 1" "j' \<le> k'" "k' \<le> n"
          using that \<open>k = Suc k'\<close> by simp_all
        then have "xs ! k' ! nat v = 1" using s2(7) r by blast
        then show ?thesis using \<open>k = Suc k'\<close> by simp
      qed
    qed
  qed
  have same: "x # xs = replicate (Suc (Suc n)) x \<and> net' = net" if "\<forall>n. m_probSI P < rnd n"
    using that s1(7) s2(8) by simp
  show ?case
  proof (intro exI[of _ "x # xs"] exI[of _ net'] exI[of _ pos'] conjI)
    show "simulate P rnd order (Suc n) t x net pos = Inr (x # xs, net', pos')" by (rule a)
    show "wf_net net'" by (rule s2(2))
    show "m_size net' = m_size net" using s2(3) s1(3) by simp
    show "states net' = states net" using s2(4) s1(4) by simp
    show "length (x # xs) = Suc (Suc n)" using s2(5) by simp
    show "(x # xs) ! 0 = x" by simp
    show "\<forall>j k v. j \<le> k \<and> k \<le> Suc n \<and> in_range net v \<and> (x # xs) ! j ! nat v = 1 \<longrightarrow>
                      (x # xs) ! k ! nat v = 1"
      using mono by blast
    show "(\<forall>n. m_probSI P < rnd n) \<longrightarrow> x # xs = replicate (Suc (Suc n)) x \<and> net' = net"
      using same by blast
  qed
qed


text \<open>
  C4. Within one run, a node whose state is Infected (1) at a timestep is Infected at
  every later timestep of the run: in the trajectory \<open>simulate\<close> records, an entry that is 1
  at index \<open>j\<close> is 1 at every index \<open>k \<ge> j\<close>. The run is one in which every timestep calls
  \<open>fn\<close> for every node.
\<close>

theorem infection_monotone:
  assumes "wf_net net" "visits_all net order" "int (length x) = m_size net"
  shows "\<exists>traj net' pos'. simulate P rnd order n t x net pos = Inr (traj, net', pos') \<and>
           length traj = Suc n \<and>
           (\<forall>j k v. j \<le> k \<and> k \<le> n \<and> in_range net v \<and> traj ! j ! nat v = 1 \<longrightarrow>
                      traj ! k ! nat v = 1)"
proof -
  obtain traj net' pos' where
    "simulate P rnd order n t x net pos = Inr (traj, net', pos')" "length traj = Suc n"
    "\<forall>j k v. j \<le> k \<and> k \<le> n \<and> in_range net v \<and> traj ! j ! nat v = 1 \<longrightarrow> traj ! k ! nat v = 1"
    using simulate_result[OF assms, of P rnd n t pos] by (elim exE conjE)
  then show ?thesis by (intro exI conjI)
qed

lemma ex_simulate:
  "simulate ex_P ex_rnd_low [0, 1] 2 0 [1, 0] ex_net 0 =
     Inr ([[1, 0], [1, 0], [1, 1]], ex_net\<lparr>infectedTime := [- 1, 10]\<rparr>, 1)"
  by code_simp

theorem infection_monotone_witness:
  "wf_net ex_net \<and> visits_all ex_net [0, 1] \<and> int (length [1, 0 :: real]) = m_size ex_net \<and>
   simulate ex_P ex_rnd_low [0, 1] 2 0 [1, 0] ex_net 0 =
     Inr ([[1, 0], [1, 0], [1, 1]], ex_net\<lparr>infectedTime := [- 1, 10]\<rparr>, 1) \<and>
   (\<exists>traj net' pos'.
      simulate ex_P ex_rnd_low [0, 1] 2 0 [1, 0] ex_net 0 = Inr (traj, net', pos') \<and>
      length traj = 3 \<and>
      (\<forall>j k v. j \<le> k \<and> k \<le> 2 \<and> in_range ex_net v \<and> traj ! j ! nat v = 1 \<longrightarrow>
                 traj ! k ! nat v = 1))"
proof -
  have h: "wf_net ex_net" "visits_all ex_net [0, 1]" "int (length [1, 0 :: real]) = m_size ex_net"
    by (auto simp: wf_net_def visits_all_def ex_net_def)
  show ?thesis
    using h infection_monotone[OF h, of ex_P ex_rnd_low 2 0 0] ex_simulate by simp
qed

section \<open>The trials of \<open>doRuns\<close>\<close>

lemma doRuns_loop_result:
  assumes "wf_net net" "visits_all net order" "int (length initial) = m_size net"
  shows "\<exists>trials net' pos'.
           doRuns_loop P rnd order simLen initial runs net pos = Inr (trials, net', pos') \<and>
           length trials = runs \<and>
           (\<forall>tr \<in> set trials. start_state tr = initial) \<and>
           (0 < runs \<longrightarrow> start_infectedTime (trials ! 0) = infectedTime net) \<and>
           (\<forall>k. Suc k < runs \<longrightarrow>
              start_infectedTime (trials ! Suc k) = end_infectedTime (trials ! k)) \<and>
           ((\<forall>n. m_probSI P < rnd n) \<longrightarrow>
              (\<forall>tr \<in> set trials. xOut tr = replicate (Suc simLen) initial))"
  using assms
proof (induction runs arbitrary: net pos)
  case 0
  then show ?case by simp
next
  case (Suc runs)
  obtain traj net1 pos1 where s1:
      "simulate P rnd order simLen 0 initial net pos = Inr (traj, net1, pos1)"
      "wf_net net1" "m_size net1 = m_size net"
      "(\<forall>n. m_probSI P < rnd n) \<longrightarrow> traj = replicate (Suc simLen) initial \<and> net1 = net"
    using simulate_result[OF Suc.prems, of P rnd simLen 0 pos] by (elim exE conjE)
  have p1: "visits_all net1 order" "int (length initial) = m_size net1"
    using Suc.prems s1(3) by (simp_all add: visits_all_def)
  obtain trials net2 pos2 where s2:
      "doRuns_loop P rnd order simLen initial runs net1 pos1 = Inr (trials, net2, pos2)"
      "length trials = runs" "\<forall>tr \<in> set trials. start_state tr = initial"
      "0 < runs \<longrightarrow> start_infectedTime (trials ! 0) = infectedTime net1"
      "\<forall>k. Suc k < runs \<longrightarrow> start_infectedTime (trials ! Suc k) = end_infectedTime (trials ! k)"
      "(\<forall>n. m_probSI P < rnd n) \<longrightarrow> (\<forall>tr \<in> set trials. xOut tr = replicate (Suc simLen) initial)"
    using Suc.IH[OF s1(2) p1, of pos1] by (elim exE conjE)
  let ?tr = "\<lparr>start_state = initial, start_infectedTime = infectedTime net, xOut = traj,
              end_infectedTime = infectedTime net1\<rparr>"
  have a: "doRuns_loop P rnd order simLen initial (Suc runs) net pos = Inr (?tr # trials, net2, pos2)"
    using s1(1) s2(1) by simp
  have chain: "start_infectedTime ((?tr # trials) ! Suc k) = end_infectedTime ((?tr # trials) ! k)"
    if "Suc k < Suc runs" for k
  proof (cases k)
    case 0
    then show ?thesis using that s2(4) by simp
  next
    case (Suc k')
    then show ?thesis using that s2(5) by simp
  qed
  show ?case
  proof (intro exI[of _ "?tr # trials"] exI[of _ net2] exI[of _ pos2] conjI)
    show "doRuns_loop P rnd order simLen initial (Suc runs) net pos = Inr (?tr # trials, net2, pos2)"
      by (rule a)
    show "length (?tr # trials) = Suc runs" using s2(2) by simp
    show "\<forall>tr \<in> set (?tr # trials). start_state tr = initial" using s2(3) by simp
    show "0 < Suc runs \<longrightarrow> start_infectedTime ((?tr # trials) ! 0) = infectedTime net" by simp
    show "\<forall>k. Suc k < Suc runs \<longrightarrow>
            start_infectedTime ((?tr # trials) ! Suc k) = end_infectedTime ((?tr # trials) ! k)"
      using chain by blast
    show "(\<forall>n. m_probSI P < rnd n) \<longrightarrow>
            (\<forall>tr \<in> set (?tr # trials). xOut tr = replicate (Suc simLen) initial)"
      using s1(4) s2(6) by simp
  qed
qed

lemma doRuns_result:
  assumes "wf_net net" "in_range net ant" "visits_all net order"
  shows "\<exists>trials net' pos'.
           doRuns P rnd order net pos ant runs simLen (Some pre) = Inr (trials, net', pos') \<and>
           length trials = nat runs \<and>
           (\<forall>tr \<in> set trials. start_state tr = initial_state net ant) \<and>
           (0 < runs \<longrightarrow> start_infectedTime (trials ! 0) = (infectedTime net)[nat ant := 0]) \<and>
           (\<forall>k. Suc k < nat runs \<longrightarrow>
              start_infectedTime (trials ! Suc k) = end_infectedTime (trials ! k)) \<and>
           ((\<forall>n. m_probSI P < rnd n) \<longrightarrow>
              (\<forall>tr \<in> set trials. xOut tr = replicate (Suc simLen) (initial_state net ant)))"
proof -
  let ?net1 = "net\<lparr>infectedTime := (infectedTime net)[nat ant := 0]\<rparr>"
  have i: "vec_set (replicate (nat (getSize net)) 0) ant 1 = Inr (initial_state net ant)"
    using assms(1,2)
    by (simp add: vec_set_in_range initial_state_def getSize_def in_range_def wf_net_def)
  have s: "setInfectedTime net ant 0 = Inr ?net1"
    by (rule setInfectedTime_in_range[OF assms(1,2)])
  have d: "doRuns P rnd order net pos ant runs simLen (Some pre) =
             doRuns_loop P rnd order simLen (initial_state net ant) (nat runs) ?net1 pos"
    by (simp add: doRuns_def i s)
  have p: "wf_net ?net1" "visits_all ?net1 order" "int (length (initial_state net ant)) = m_size ?net1"
    using assms by (simp_all add: wf_net_def visits_all_def initial_state_def)
  have r: "0 < runs \<longleftrightarrow> 0 < nat runs" by simp
  show ?thesis
    unfolding d r
    using doRuns_loop_result[OF p, of P rnd simLen "nat runs" pos] by simp
qed


text \<open>
  C6, as the code has it. At the start of every trial the state vector is the initial
  one: the seed node Infected, all others Susceptible. The infected times are not reset
  for a trial: \<open>doRuns\<close> sets the time of the seed node to 0 once, before the first trial,
  and every later trial starts from the infected times the trial before it has left.
\<close>

theorem doRuns_trial_starts:
  assumes "wf_net net" "in_range net ant" "visits_all net order"
  shows "\<exists>trials net' pos'.
           doRuns P rnd order net pos ant runs simLen (Some pre) = Inr (trials, net', pos') \<and>
           length trials = nat runs \<and>
           (\<forall>tr \<in> set trials. start_state tr = initial_state net ant) \<and>
           (0 < runs \<longrightarrow> start_infectedTime (trials ! 0) = (infectedTime net)[nat ant := 0]) \<and>
           (\<forall>k. Suc k < nat runs \<longrightarrow>
              start_infectedTime (trials ! Suc k) = end_infectedTime (trials ! k))"
proof -
  obtain trials net' pos' where
    "doRuns P rnd order net pos ant runs simLen (Some pre) = Inr (trials, net', pos')"
    "length trials = nat runs"
    "\<forall>tr \<in> set trials. start_state tr = initial_state net ant"
    "0 < runs \<longrightarrow> start_infectedTime (trials ! 0) = (infectedTime net)[nat ant := 0]"
    "\<forall>k. Suc k < nat runs \<longrightarrow> start_infectedTime (trials ! Suc k) = end_infectedTime (trials ! k)"
    using doRuns_result[OF assms, of P rnd pos runs simLen pre] by (elim exE conjE)
  then show ?thesis by (intro exI conjI)
qed

lemma ex_net_hyps: "wf_net ex_net" "in_range ex_net 0" "visits_all ex_net [0, 1]"
  by (auto simp: wf_net_def in_range_def visits_all_def ex_net_def)

theorem doRuns_trial_starts_witness:
  "wf_net ex_net \<and> in_range ex_net 0 \<and> visits_all ex_net [0, 1] \<and>
   (\<exists>trials net' pos'.
      doRuns ex_P ex_rnd_low [0, 1] ex_net 0 0 2 2 (Some ''out'') = Inr (trials, net', pos') \<and>
      length trials = 2 \<and>
      (\<forall>tr \<in> set trials. start_state tr = [1, 0]) \<and>
      start_infectedTime (trials ! 0) = [0, - 1] \<and>
      start_infectedTime (trials ! 1) = end_infectedTime (trials ! 0))"
proof -
  have i: "initial_state ex_net 0 = [1, 0]" "(infectedTime ex_net)[0 := 0] = [0, - 1]"
    by (simp_all add: initial_state_def ex_net_def eval_nat_numeral)
  have k: "(\<forall>k. Suc k < nat 2 \<longrightarrow> Q k) \<longleftrightarrow> Q 0" for Q
    by (auto simp: eval_nat_numeral less_Suc_eq)
  show ?thesis
    using ex_net_hyps
      doRuns_trial_starts[OF ex_net_hyps, of ex_P ex_rnd_low 0 2 2 "''out''"]
    by (simp add: i k)
qed

text \<open>
  With two trials the second one starts from the infected times \<open>[0, 10]\<close> that the first
  has written, not from \<open>[0, -1]\<close>.
\<close>

theorem doRuns_reset_counterexample:
  "doRuns ex_P ex_rnd_low [0, 1] ex_net 0 0 2 2 (Some ''out'') =
     Inr ([\<lparr>start_state = [1, 0], start_infectedTime = [0, - 1],
             xOut = [[1, 0], [1, 0], [1, 1]], end_infectedTime = [0, 10]\<rparr>,
           \<lparr>start_state = [1, 0], start_infectedTime = [0, 10],
             xOut = [[1, 0], [1, 0], [1, 1]], end_infectedTime = [0, 10]\<rparr>],
          ex_net\<lparr>infectedTime := [0, 10]\<rparr>, 2)"
  by code_simp

section \<open>Transition probability zero\<close>

lemma initial_state_others:
  assumes "wf_net net" "in_range net ant" "in_range net v" "v \<noteq> ant"
  shows "initial_state net ant ! nat v = 0"
proof -
  have "nat v \<noteq> nat ant" "nat v < nat (m_size net)"
    using assms by (auto simp: in_range_def)
  then show ?thesis by (simp add: initial_state_def)
qed

text \<open>
  C7, as the code has it. With \<open>SI_PROB = 0.0\<close> and a random stream whose draws are all
  above zero, no transition occurs: in every trial every state of the trajectory is the
  initial one, so every node other than the seed is Susceptible at every timestep.
\<close>

theorem zero_probability_no_transition:
  assumes "wf_net net" "in_range net ant" "visits_all net order"
    and "m_probSI P = 0" "\<forall>n. 0 < rnd n"
  shows "\<exists>trials net' pos'.
           doRuns P rnd order net pos ant runs simLen (Some pre) = Inr (trials, net', pos') \<and>
           length trials = nat runs \<and>
           (\<forall>tr \<in> set trials. \<forall>s \<in> set (xOut tr).
              s = initial_state net ant \<and>
              (\<forall>v. in_range net v \<and> v \<noteq> ant \<longrightarrow> s ! nat v = 0))"
proof -
  have above: "\<forall>n. m_probSI P < rnd n" using assms(4,5) by simp
  obtain trials net' pos' where d:
    "doRuns P rnd order net pos ant runs simLen (Some pre) = Inr (trials, net', pos')"
    "length trials = nat runs"
    "(\<forall>n. m_probSI P < rnd n) \<longrightarrow>
       (\<forall>tr \<in> set trials. xOut tr = replicate (Suc simLen) (initial_state net ant))"
    using doRuns_result[OF assms(1,2,3), of P rnd pos runs simLen pre] by (elim exE conjE)
  have "s = initial_state net ant \<and> (\<forall>v. in_range net v \<and> v \<noteq> ant \<longrightarrow> s ! nat v = 0)"
    if "tr \<in> set trials" "s \<in> set (xOut tr)" for tr s
  proof -
    have "xOut tr = replicate (Suc simLen) (initial_state net ant)"
      using d(3) above that(1) by blast
    then have "s = initial_state net ant" using that(2) by auto
    then show ?thesis using initial_state_others[OF assms(1,2)] by blast
  qed
  then have "\<forall>tr \<in> set trials. \<forall>s \<in> set (xOut tr).
              s = initial_state net ant \<and>
              (\<forall>v. in_range net v \<and> v \<noteq> ant \<longrightarrow> s ! nat v = 0)"
    by blast
  with d(1,2) show ?thesis by (intro exI conjI)
qed


theorem zero_probability_no_transition_witness:
  "wf_net ex_net \<and> in_range ex_net 0 \<and> visits_all ex_net [0, 1] \<and>
   m_probSI ex_P0 = 0 \<and> (\<forall>n. 0 < ex_rnd_low n) \<and>
   (\<exists>trials net' pos'.
      doRuns ex_P0 ex_rnd_low [0, 1] ex_net 0 0 1 2 (Some ''out'') = Inr (trials, net', pos') \<and>
      length trials = 1 \<and>
      (\<forall>tr \<in> set trials. \<forall>s \<in> set (xOut tr).
         s = [1, 0] \<and> (\<forall>v. in_range ex_net v \<and> v \<noteq> 0 \<longrightarrow> s ! nat v = 0)))"
proof -
  have i: "initial_state ex_net 0 = [1, 0]"
    by (simp add: initial_state_def ex_net_def eval_nat_numeral)
  have p: "m_probSI ex_P0 = 0" "\<forall>n. 0 < ex_rnd_low n"
    by (simp_all add: ex_P0_def ex_rnd_low_def)
  show ?thesis
    using ex_net_hyps p
      zero_probability_no_transition[OF ex_net_hyps p, of 0 1 2 "''out''"]
    by (simp add: i)
qed

text \<open>
  With \<open>SI_PROB = 0.0\<close> and a draw that is exactly 0, the comparison \<open>rnd () <= probSI\<close>
  holds and node 1 becomes Infected at the timestep of its contact with the seed.
\<close>

theorem zero_probability_counterexample:
  "m_probSI ex_P0 = 0 \<and>
   doRuns ex_P0 ex_rnd_zero [0, 1] ex_net 0 0 1 2 (Some ''out'') =
     Inr ([\<lparr>start_state = [1, 0], start_infectedTime = [0, - 1],
             xOut = [[1, 0], [1, 0], [1, 1]], end_infectedTime = [0, 10]\<rparr>],
          ex_net\<lparr>infectedTime := [0, 10]\<rparr>, 1)"
  by code_simp

section \<open>The exit code of \<open>main\<close>\<close>

lemma main_usage:
  "int (length argv) < 9 \<or> 11 < int (length argv) \<Longrightarrow>
   main atoi atof rnd nodeOrder d file argv = Inr (1, [Usage])"
  by (auto simp: main_def)

lemma main_bad_ant:
  assumes "9 \<le> length argv" "length argv \<le> 11"
    and "DynamicNet_direct atoi atof (atoi (argv ! 2)) file = Inr net"
    and "atoi (argv ! 4) \<noteq> - 1" "\<not> (0 < atoi (argv ! 4) \<and> atoi (argv ! 4) \<le> atoi (argv ! 2))"
  shows "main atoi atof rnd nodeOrder d file argv = Inr (1, [Diagnostic])"
  using assms by (auto simp: main_def Let_def)

text \<open>
  Only \<open>argc == 10\<close> assigns \<open>prefix\<close>. With eight or with ten arguments after the program
  name and a seed node in \<open>[1, num]\<close>, \<open>doRuns\<close> is called with the pointer uninitialised
  and \<open>main\<close> does not return an exit code.
\<close>

lemma doRuns_no_prefix: "\<exists>e. doRuns P rnd order net pos ant runs simLen None = Inl e"
  by (simp add: doRuns_def split: sum.splits)

lemma main_no_prefix:
  assumes "length argv = 9 \<or> length argv = 11"
    and "DynamicNet_direct atoi atof (atoi (argv ! 2)) file = Inr net"
    and "0 < atoi (argv ! 4)" "atoi (argv ! 4) \<le> atoi (argv ! 2)"
  shows "\<exists>e. main atoi atof rnd nodeOrder d file argv = Inl e"
proof -
  let ?P = "\<lparr>m_probSI = atof (argv ! 3), m_decayRate = d, m_ts = atof (argv ! 7)\<rparr>"
  obtain e where e: "doRuns ?P rnd (nodeOrder (atoi (argv ! 2))) net 0 (atoi (argv ! 4) - 1)
      (atoi (argv ! 5)) (nat \<lfloor>atof (argv ! 6)\<rfloor>) None = Inl e"
    using doRuns_no_prefix by blast
  have "main atoi atof rnd nodeOrder d file argv = Inl e"
    using assms e by (auto simp: main_def Let_def)
  then show ?thesis ..
qed

text \<open>
  C8 at a command line with ten arguments after the program name (\<open>argc = 11\<close>), one
  more than the usage text lists: \<open>main\<close> does not print the usage and does not return 1;
  it passes the check of the argument count, builds the net and calls \<open>doRuns\<close> with the
  prefix never assigned. With nine arguments the same command line runs the simulation
  and returns 0.
\<close>

theorem main_ten_arguments:
  "int (length ex_argv11) = 11 \<and>
   main ex_atoi ex_atof ex_rnd_low ex_order 0 ex_file ex_argv11 = Inl Undefined \<and>
   main ex_atoi ex_atof ex_rnd_low ex_order 0 ex_file ex_argv10 =
     Inr (0, [Ran 0 [\<lparr>start_state = [1, 0], start_infectedTime = [0, - 1],
                       xOut = [[1, 0], [1, 0], [1, 1]], end_infectedTime = [0, 10]\<rparr>]])"
  by code_simp

end
